theory Spec2Isabelle
  imports Main "HOL-Library.Char_ord"
begin

unbundle bit_operations_syntax

section \<open>Characters, character sets and word lists\<close>

text \<open>
  The lexer of \<^verbatim>\<open>src/scintilla/lexers/LexBash.cxx\<close> reads a buffer of bytes.  A byte is a
  \<^typ>\<open>char\<close>, the document is a \<^typ>\<open>string\<close>, and positions are \<^typ>\<open>int\<close>
  (\<^verbatim>\<open>Sci_Position\<close>), so that \<^verbatim>\<open>currentPos - 1\<close> and \<^verbatim>\<open>GetRelative(-3)\<close> read as in
  the source.
\<close>

abbreviation NUL :: char where "NUL \<equiv> CHR 0x00"
abbreviation TAB :: char where "TAB \<equiv> CHR 0x09"
abbreviation LF :: char where "LF \<equiv> CHR 0x0A"
abbreviation CR :: char where "CR \<equiv> CHR 0x0D"
abbreviation SPC :: char where "SPC \<equiv> CHR 0x20"
abbreviation DQUOTE :: char where "DQUOTE \<equiv> CHR 0x22"
abbreviation SQUOTE :: char where "SQUOTE \<equiv> CHR 0x27"
abbreviation BSLASH :: char where "BSLASH \<equiv> CHR 0x5C"
abbreviation BTICK :: char where "BTICK \<equiv> CHR 0x60"

text \<open>Modelled from the spec: the Character Classification Tables of \<^verbatim>\<open>CharacterSet.h\<close>
  (not under src/): constant membership sets, here the list of their members.\<close>

definition setDigits :: string where
  "setDigits = ''0123456789''"

definition setAlpha :: string where
  "setAlpha = ''abcdefghijklmnopqrstuvwxyzABCDEFGHIJKLMNOPQRSTUVWXYZ''"

definition setAlphaNum :: string where
  "setAlphaNum = setAlpha @ setDigits"

definition Contains :: "string \<Rightarrow> char \<Rightarrow> bool" where
  "Contains cs c = (c \<in> set cs)"

definition IsASpace :: "char \<Rightarrow> bool" where
  "IsASpace c = (c = SPC \<or> Contains [CHR 0x09, CHR 0x0A, CHR 0x0B, CHR 0x0C, CHR 0x0D] c)"

definition IsADigit :: "char \<Rightarrow> bool" where
  "IsADigit c = Contains setDigits c"

definition IsHexDigit :: "char \<Rightarrow> bool" where
  "IsHexDigit c = Contains (setDigits @ ''abcdefABCDEF'') c"

definition IsUpperCase :: "char \<Rightarrow> bool" where
  "IsUpperCase c = Contains ''ABCDEFGHIJKLMNOPQRSTUVWXYZ'' c"

text \<open>The sets built at the head of \<^verbatim>\<open>ColouriseBashDoc\<close> (lines 135 to 145).\<close>

definition setWordStart :: string where
  "setWordStart = setAlpha @ ''_''"

definition setWord :: string where
  "setWord = setAlphaNum @ ''._+-''"

definition setMetaCharacter :: string where
  "setMetaCharacter = ''|&;()<> '' @ [TAB, CR, LF] @ [NUL]"

definition setBashOperator :: string where
  "setBashOperator = ''^&%()-+=|{}[]:;>,*<?!.~@''"

definition setSingleCharOp :: string where
  "setSingleCharOp = ''rwxoRWXOezsfdlpSbctugkTBMACahGLNn''"

definition setParam :: string where
  "setParam = setAlphaNum @ ''$_''"

definition setHereDoc :: string where
  "setHereDoc = setAlpha @ ''_'' @ [BSLASH] @ ''-+!%*,./:?@[]^'' @ [BTICK] @ ''{}~''"

definition setHereDoc2 :: string where
  "setHereDoc2 = setAlphaNum @ ''_-+!%*,./:=?@[]^'' @ [BTICK] @ ''{}~''"

definition setLeftShift :: string where
  "setLeftShift = setDigits @ ''$''"

text \<open>A C string ends at its first NUL; \<^verbatim>\<open>strcmp\<close> compares two of them.\<close>

definition c_str :: "string \<Rightarrow> string" where
  "c_str s = takeWhile (\<lambda>c. c \<noteq> NUL) s"

definition strcmp_eq :: "string \<Rightarrow> string \<Rightarrow> bool" where
  "strcmp_eq a b = (c_str a = c_str b)"

text \<open>Modelled from the spec: \<^verbatim>\<open>WordList::InList\<close> (\<^verbatim>\<open>WordList.h\<close>, not under src/), membership
  of a C string in a keyword list.\<close>

definition InList :: "string list \<Rightarrow> string \<Rightarrow> bool" where
  "InList wl s = (c_str s \<noteq> [] \<and> c_str s \<in> set wl)"

definition cmdDelimiter :: "string list" where
  "cmdDelimiter = [''|'', ''||'', ''|&'', ''&'', ''&&'', '';'', '';;'', ''('', '')'', ''{'', ''}'']"

definition bashStruct :: "string list" where
  "bashStruct = [''if'', ''elif'', ''fi'', ''while'', ''until'', ''else'', ''then'', ''do'',
     ''done'', ''esac'', ''eval'']"

definition bashStruct_in :: "string list" where
  "bashStruct_in = [''for'', ''case'', ''select'']"

section \<open>Constants of the lexer\<close>

abbreviation (input) HERE_DELIM_MAX :: int where "HERE_DELIM_MAX \<equiv> 256"
abbreviation (input) BASH_BASE_ERROR :: int where "BASH_BASE_ERROR \<equiv> 65"
abbreviation (input) BASH_BASE_DECIMAL :: int where "BASH_BASE_DECIMAL \<equiv> 66"
abbreviation (input) BASH_BASE_HEX :: int where "BASH_BASE_HEX \<equiv> 67"

abbreviation (input) BASH_CMD_BODY :: int where "BASH_CMD_BODY \<equiv> 0"
abbreviation (input) BASH_CMD_START :: int where "BASH_CMD_START \<equiv> 1"
abbreviation (input) BASH_CMD_WORD :: int where "BASH_CMD_WORD \<equiv> 2"
abbreviation (input) BASH_CMD_TEST :: int where "BASH_CMD_TEST \<equiv> 3"
abbreviation (input) BASH_CMD_ARITH :: int where "BASH_CMD_ARITH \<equiv> 4"
abbreviation (input) BASH_CMD_DELIM :: int where "BASH_CMD_DELIM \<equiv> 5"

abbreviation (input) BASH_DELIM_LITERAL :: int where "BASH_DELIM_LITERAL \<equiv> 0"
abbreviation (input) BASH_DELIM_STRING :: int where "BASH_DELIM_STRING \<equiv> 1"
abbreviation (input) BASH_DELIM_CSTRING :: int where "BASH_DELIM_CSTRING \<equiv> 2"
abbreviation (input) BASH_DELIM_LSTRING :: int where "BASH_DELIM_LSTRING \<equiv> 3"
abbreviation (input) BASH_DELIM_COMMAND :: int where "BASH_DELIM_COMMAND \<equiv> 4"
abbreviation (input) BASH_DELIM_BACKTICK :: int where "BASH_DELIM_BACKTICK \<equiv> 5"

abbreviation (input) BASH_DELIM_STACK_MAX :: int where "BASH_DELIM_STACK_MAX \<equiv> 7"

text \<open>The style ids \<^verbatim>\<open>SCE_SH_*\<close> of \<^verbatim>\<open>SciLexer.h\<close> (not under src/): an enumeration, so the
  model does not depend on their numbers.\<close>

datatype style =
    SCE_SH_DEFAULT | SCE_SH_ERROR | SCE_SH_COMMENTLINE | SCE_SH_NUMBER | SCE_SH_WORD
  | SCE_SH_STRING | SCE_SH_CHARACTER | SCE_SH_OPERATOR | SCE_SH_IDENTIFIER | SCE_SH_SCALAR
  | SCE_SH_PARAM | SCE_SH_BACKTICKS | SCE_SH_HERE_DELIM | SCE_SH_HERE_Q

section \<open>The free functions of LexBash.cxx\<close>

definition char_code :: "char \<Rightarrow> int" where
  "char_code c = int (of_char c)"

definition in_range :: "char \<Rightarrow> char \<Rightarrow> char \<Rightarrow> bool" where
  "in_range lo hi c = (char_code lo \<le> char_code c \<and> char_code c \<le> char_code hi)"

definition translateBashDigit :: "char \<Rightarrow> int" where
  "translateBashDigit ch =
     (if in_range CHR ''0'' CHR ''9'' ch then char_code ch - char_code CHR ''0''
      else if in_range CHR ''a'' CHR ''z'' ch then char_code ch - char_code CHR ''a'' + 10
      else if in_range CHR ''A'' CHR ''Z'' ch then char_code ch - char_code CHR ''A'' + 36
      else if ch = CHR ''@'' then 62
      else if ch = CHR ''_'' then 63
      else BASH_BASE_ERROR)"

text \<open>A byte read through a \<^verbatim>\<open>char\<close>, which is signed on the targets of this repository: a
  byte of 128 or more is a negative number.\<close>

definition schar_code :: "char \<Rightarrow> int" where
  "schar_code c = (if char_code c < 128 then char_code c else char_code c - 256)"

text \<open>\<^verbatim>\<open>getBashNumberBase\<close>: the loop over the C string keeps \<^verbatim>\<open>base\<close> and \<^verbatim>\<open>i\<close>; \<^verbatim>\<open>*s++ - '0'\<close>
  reads a \<^verbatim>\<open>char\<close>.\<close>

fun getBashNumberBase_loop :: "string \<Rightarrow> int \<Rightarrow> int \<Rightarrow> int \<times> int" where
  "getBashNumberBase_loop [] i base = (i, base)"
| "getBashNumberBase_loop (c # s) i base =
     getBashNumberBase_loop s (i + 1) (base * 10 + (schar_code c - char_code CHR ''0''))"

definition getBashNumberBase :: "string \<Rightarrow> int" where
  "getBashNumberBase s =
     (case getBashNumberBase_loop (c_str s) 0 0 of
        (i, base) \<Rightarrow> if base > 64 \<or> i > 2 then BASH_BASE_ERROR else base)"

definition opposite :: "char \<Rightarrow> char" where
  "opposite ch =
     (if ch = CHR ''('' then CHR '')''
      else if ch = CHR ''['' then CHR '']''
      else if ch = CHR ''{'' then CHR ''}''
      else if ch = CHR ''<'' then CHR ''>''
      else ch)"

section \<open>The document accessor and the style cursor\<close>

text \<open>Modelled from the spec: the document accessor (\<^verbatim>\<open>Accessor.h\<close>, \<^verbatim>\<open>LexAccessor.h\<close>, not under
  src/): \<^verbatim>\<open>charAt(offset)\<close>, \<^verbatim>\<open>lineStart(line)\<close>, \<^verbatim>\<open>lineOfOffset(offset)\<close>.  A read outside the
  buffer gives NUL.  A line ends with LF, with CR LF, or with a CR that no LF follows.\<close>

definition SafeGetCharAt :: "string \<Rightarrow> int \<Rightarrow> char" where
  "SafeGetCharAt doc pos =
     (if 0 \<le> pos \<and> pos < int (length doc) then doc ! nat pos else NUL)"

fun line_starts_from :: "string \<Rightarrow> int \<Rightarrow> int list" where
  "line_starts_from [] pos = []"
| "line_starts_from (c # cs) pos =
     (if c = LF \<or> (c = CR \<and> (case cs of [] \<Rightarrow> True | d # _ \<Rightarrow> d \<noteq> LF))
      then (pos + 1) # line_starts_from cs (pos + 1)
      else line_starts_from cs (pos + 1))"

definition line_starts :: "string \<Rightarrow> int list" where
  "line_starts doc = 0 # line_starts_from doc 0"

definition LineStart :: "string \<Rightarrow> int \<Rightarrow> int" where
  "LineStart doc ln =
     (if ln < 0 then 0
      else if nat ln < length (line_starts doc) then line_starts doc ! nat ln
      else int (length doc))"

definition GetLine :: "string \<Rightarrow> int \<Rightarrow> int" where
  "GetLine doc pos = int (length (filter (\<lambda>s. s \<le> pos) (tl (line_starts doc))))"

text \<open>Modelled from the spec: the Style Cursor (\<^verbatim>\<open>StyleContext.h\<close>, not under src/) over a
  single-byte document.  The record holds the cursor's fields and, as \<open>startSeg\<close>, \<open>styles\<close>
  and \<open>lineState\<close>, the part of the accessor it writes to: the start of the pending style run,
  the committed style of every byte, and the persisted state of every line.\<close>

record StyleContext =
  endPos :: int
  currentPos :: int
  currentLine :: int
  lineStartNext :: int
  atLineStart :: bool
  atLineEnd :: bool
  state :: style
  chPrev :: char
  ch :: char
  chNext :: char
  startSeg :: int
  styles :: "style list"
  lineState :: "int \<Rightarrow> int"

definition fill_styles :: "style list \<Rightarrow> int \<Rightarrow> int \<Rightarrow> style \<Rightarrow> style list" where
  "fill_styles xs a b v =
     map (\<lambda>i. if a \<le> int i \<and> int i \<le> b then v else xs ! i) [0..<length xs]"

text \<open>\<^verbatim>\<open>styleTo(offset, styleId)\<close>: commits the pending run, which ends at \<open>pos\<close>.\<close>

definition ColourTo :: "int \<Rightarrow> style \<Rightarrow> StyleContext \<Rightarrow> StyleContext" where
  "ColourTo pos attr sc =
     (if pos \<noteq> startSeg sc - 1 \<and> pos < startSeg sc then sc
      else sc\<lparr>startSeg := pos + 1, styles := fill_styles (styles sc) (startSeg sc) pos attr\<rparr>)"

definition GetNextChar :: "string \<Rightarrow> StyleContext \<Rightarrow> StyleContext" where
  "GetNextChar doc sc =
     sc\<lparr>chNext := SafeGetCharAt doc (currentPos sc + 1),
        atLineEnd :=
          (if currentLine sc < GetLine doc (int (length doc))
           then currentPos sc \<ge> lineStartNext sc - 1
           else currentPos sc \<ge> lineStartNext sc)\<rparr>"

text \<open>The constructor \<^verbatim>\<open>StyleContext sc(startPos, length, initStyle, styler)\<close>; \<open>st\<close> and \<open>ls\<close>
  are the style bytes and line states the accessor holds when the pass begins.\<close>

definition StyleContext_init ::
  "string \<Rightarrow> int \<Rightarrow> int \<Rightarrow> style \<Rightarrow> style list \<Rightarrow> (int \<Rightarrow> int) \<Rightarrow> StyleContext" where
  "StyleContext_init doc startPos len initStyle st ls =
     GetNextChar doc
       \<lparr>endPos = startPos + len, currentPos = startPos,
        currentLine = GetLine doc startPos,
        lineStartNext = LineStart doc (GetLine doc startPos + 1),
        atLineStart = (LineStart doc (GetLine doc startPos) = startPos),
        atLineEnd = False, state = initStyle, chPrev = NUL,
        ch = SafeGetCharAt doc startPos, chNext = NUL,
        startSeg = startPos, styles = st, lineState = ls\<rparr>"

definition More :: "StyleContext \<Rightarrow> bool" where
  "More sc = (currentPos sc < endPos sc)"

text \<open>\<^verbatim>\<open>advance()\<close>.\<close>

definition Forward :: "string \<Rightarrow> StyleContext \<Rightarrow> StyleContext" where
  "Forward doc sc =
     (if currentPos sc < endPos sc then
        GetNextChar doc
          (sc\<lparr>atLineStart := atLineEnd sc,
              currentLine := (if atLineEnd sc then currentLine sc + 1 else currentLine sc),
              lineStartNext :=
                (if atLineEnd sc then LineStart doc (currentLine sc + 2) else lineStartNext sc),
              chPrev := ch sc, currentPos := currentPos sc + 1, ch := chNext sc\<rparr>)
      else sc\<lparr>atLineStart := False, chPrev := SPC, ch := SPC, chNext := SPC, atLineEnd := True\<rparr>)"

fun ForwardN :: "string \<Rightarrow> nat \<Rightarrow> StyleContext \<Rightarrow> StyleContext" where
  "ForwardN doc 0 sc = sc"
| "ForwardN doc (Suc n) sc = ForwardN doc n (Forward doc sc)"

definition ChangeState :: "style \<Rightarrow> StyleContext \<Rightarrow> StyleContext" where
  "ChangeState st sc = sc\<lparr>state := st\<rparr>"

definition SetState :: "string \<Rightarrow> style \<Rightarrow> StyleContext \<Rightarrow> StyleContext" where
  "SetState doc st sc =
     (ColourTo (currentPos sc - (if currentPos sc > int (length doc) then 2 else 1)) (state sc) sc)
       \<lparr>state := st\<rparr>"

definition ForwardSetState :: "string \<Rightarrow> style \<Rightarrow> StyleContext \<Rightarrow> StyleContext" where
  "ForwardSetState doc st sc = SetState doc st (Forward doc sc)"

definition Complete :: "string \<Rightarrow> StyleContext \<Rightarrow> StyleContext" where
  "Complete doc sc =
     ColourTo (currentPos sc - (if currentPos sc > int (length doc) then 2 else 1)) (state sc) sc"

definition LengthCurrent :: "StyleContext \<Rightarrow> int" where
  "LengthCurrent sc = currentPos sc - startSeg sc"

definition GetRelative :: "string \<Rightarrow> StyleContext \<Rightarrow> int \<Rightarrow> char" where
  "GetRelative doc sc n = SafeGetCharAt doc (currentPos sc + n)"

text \<open>\<^verbatim>\<open>GetRelativeCharacter\<close> is not a \<^verbatim>\<open>const\<close> method (it keeps a cache for multi-byte
  encodings), so it hands the cursor back.\<close>

definition GetRelativeCharacter :: "string \<Rightarrow> int \<Rightarrow> StyleContext \<Rightarrow> char \<times> StyleContext" where
  "GetRelativeCharacter doc n sc =
     (if n = 0 then (ch sc, sc) else (SafeGetCharAt doc (currentPos sc + n), sc))"

definition Match2 :: "StyleContext \<Rightarrow> char \<Rightarrow> char \<Rightarrow> bool" where
  "Match2 sc c0 c1 = (ch sc = c0 \<and> chNext sc = c1)"

text \<open>\<^verbatim>\<open>GetCurrent(s, len)\<close> copies the pending run into a buffer of \<open>len\<close> bytes.\<close>

definition GetCurrent :: "string \<Rightarrow> StyleContext \<Rightarrow> nat \<Rightarrow> string" where
  "GetCurrent doc sc len =
     take (len - 1) (take (nat (currentPos sc - startSeg sc)) (drop (nat (startSeg sc)) doc))"

section \<open>The classes local to ColouriseBashDoc\<close>

text \<open>An array of the source is a list of the array's length.  A write at an index
  outside the array is undefined in C++; \<open>store\<close> leaves the list as it is there, and the
  here-document class records the event in \<open>Overrun\<close>, a field the source does not have, so
  that the bounds of its buffer can be stated.\<close>

definition store :: "'a list \<Rightarrow> int \<Rightarrow> 'a \<Rightarrow> 'a list" where
  "store xs i v = (if 0 \<le> i \<and> i < int (length xs) then xs[nat i := v] else xs)"

definition in_bounds :: "'a list \<Rightarrow> int \<Rightarrow> bool" where
  "in_bounds xs i = (0 \<le> i \<and> i < int (length xs))"

record HereDocCls =
  State :: int
  HQuote :: char
  Quoted :: bool
  Indent :: bool
  DelimiterLength :: int
  Delimiter :: string
  Overrun :: bool

definition HereDoc_init :: HereDocCls where
  "HereDoc_init =
     \<lparr>State = 0, HQuote = NUL, Quoted = False, Indent = False, DelimiterLength = 0,
      Delimiter = replicate (nat HERE_DELIM_MAX) NUL, Overrun = False\<rparr>"

text \<open>A write into \<^verbatim>\<open>Delimiter\<close>.\<close>

definition Delimiter_write :: "int \<Rightarrow> char \<Rightarrow> HereDocCls \<Rightarrow> HereDocCls" where
  "Delimiter_write i v h =
     h\<lparr>Delimiter := store (Delimiter h) i v,
        Overrun := (Overrun h \<or> \<not> in_bounds (Delimiter h) i)\<rparr>"

definition Append :: "char \<Rightarrow> HereDocCls \<Rightarrow> HereDocCls" where
  "Append c h =
     (Delimiter_write (DelimiterLength h + 1) NUL (Delimiter_write (DelimiterLength h) c h))
       \<lparr>DelimiterLength := DelimiterLength h + 1\<rparr>"

record QuoteCls =
  QCount :: int
  QUp :: char
  QDown :: char

definition Quote_init :: QuoteCls where
  "Quote_init = \<lparr>QCount = 0, QUp = NUL, QDown = NUL\<rparr>"

definition Quote_Open :: "char \<Rightarrow> QuoteCls \<Rightarrow> QuoteCls" where
  "Quote_Open u q = q\<lparr>QCount := QCount q + 1, QUp := u, QDown := opposite u\<rparr>"

definition Quote_Start :: "char \<Rightarrow> QuoteCls \<Rightarrow> QuoteCls" where
  "Quote_Start u q = Quote_Open u (q\<lparr>QCount := 0\<rparr>)"

record QuoteStackCls =
  Count :: int
  Up :: char
  Down :: char
  Style :: int
  Depth :: int
  CountStack :: "int list"
  UpStack :: "char list"
  StyleStack :: "int list"

definition QuoteStack_init :: QuoteStackCls where
  "QuoteStack_init =
     \<lparr>Count = 0, Up = NUL, Down = NUL, Style = 0, Depth = 0,
      CountStack = replicate (nat BASH_DELIM_STACK_MAX) 0,
      UpStack = replicate (nat BASH_DELIM_STACK_MAX) NUL,
      StyleStack = replicate (nat BASH_DELIM_STACK_MAX) 0\<rparr>"

definition Start :: "char \<Rightarrow> int \<Rightarrow> QuoteStackCls \<Rightarrow> QuoteStackCls" where
  "Start u s q = q\<lparr>Count := 1, Up := u, Down := opposite u, Style := s\<rparr>"

definition Push :: "char \<Rightarrow> int \<Rightarrow> QuoteStackCls \<Rightarrow> QuoteStackCls" where
  "Push u s q =
     (if Depth q \<ge> BASH_DELIM_STACK_MAX then q
      else q\<lparr>CountStack := store (CountStack q) (Depth q) (Count q),
             UpStack := store (UpStack q) (Depth q) (Up q),
             StyleStack := store (StyleStack q) (Depth q) (Style q),
             Depth := Depth q + 1,
             Count := 1, Up := u, Down := opposite u, Style := s\<rparr>)"

definition Pop :: "QuoteStackCls \<Rightarrow> QuoteStackCls" where
  "Pop q =
     (if Depth q \<le> 0 then q
      else q\<lparr>Depth := Depth q - 1,
             Count := CountStack q ! nat (Depth q - 1),
             Up := UpStack q ! nat (Depth q - 1),
             Style := StyleStack q ! nat (Depth q - 1),
             Down := opposite (UpStack q ! nat (Depth q - 1))\<rparr>)"

section \<open>GlobScan\<close>

text \<open>The forward scan for zsh globs (lines 97 to 122).  The cursor is passed by reference
  in the source, so the model returns it beside the result.\<close>

function GlobScan_loop ::
  "string \<Rightarrow> StyleContext \<Rightarrow> int \<Rightarrow> int \<Rightarrow> int \<Rightarrow> int \<times> StyleContext" where
  "GlobScan_loop doc sc sLen pCount hash =
     (case GetRelativeCharacter doc (sLen + 1) sc of (c, sc1) \<Rightarrow>
        if c \<noteq> NUL then
          (if IsASpace c then (0, sc1)
           else if c = SQUOTE \<or> c = DQUOTE then
             (if hash \<noteq> 2 then (0, sc1) else GlobScan_loop doc sc1 (sLen + 1) pCount hash)
           else if c = CHR ''#'' \<and> hash = 0 then
             GlobScan_loop doc sc1 (sLen + 1) pCount (if sLen + 1 = 1 then 2 else 1)
           else if c = CHR ''('' then GlobScan_loop doc sc1 (sLen + 1) (pCount + 1) hash
           else if c = CHR '')'' then
             (if pCount = 0 then (if hash \<noteq> 0 then (sLen + 1, sc1) else (0, sc1))
              else GlobScan_loop doc sc1 (sLen + 1) (pCount - 1) hash)
           else GlobScan_loop doc sc1 (sLen + 1) pCount hash)
        else (0, sc1))"
  by pat_completeness auto

lemma GetRelativeCharacter_snd: "snd (GetRelativeCharacter doc n sc) = sc"
  by (simp add: GetRelativeCharacter_def)

lemma GetRelativeCharacter_not_NUL:
  assumes "GetRelativeCharacter doc n sc = (c, sc1)" and "c \<noteq> NUL" and "n \<noteq> 0"
  shows "0 \<le> currentPos sc + n \<and> currentPos sc + n < int (length doc) \<and> sc1 = sc"
  using assms by (auto simp: GetRelativeCharacter_def SafeGetCharAt_def split: if_splits)

termination GlobScan_loop
  apply (relation "measure (\<lambda>(doc, sc, sLen, pCount, hash).
    nat (int (length doc) - currentPos sc - sLen)
    + (if sLen < 0 then nat (int (length doc) - currentPos sc) + 1 else 0))")
  apply (auto simp: GetRelativeCharacter_def SafeGetCharAt_def split: if_splits)
  done

declare GlobScan_loop.simps [simp del]

definition GlobScan :: "string \<Rightarrow> StyleContext \<Rightarrow> int \<times> StyleContext" where
  "GlobScan doc sc = GlobScan_loop doc sc 0 0 0"

section \<open>ColouriseBashDoc: the variables of a pass\<close>

text \<open>Everything a pass keeps between two characters: the three local objects, \<^verbatim>\<open>numBase\<close>,
  \<^verbatim>\<open>cmdState\<close>, \<^verbatim>\<open>testExprType\<close>, the loop's \<^verbatim>\<open>cmdStateNew\<close>, and the style cursor \<open>sc\<close>.\<close>

record BashLexer =
  HereDoc :: HereDocCls
  Quote :: QuoteCls
  QuoteStack :: QuoteStackCls
  numBase :: int
  cmdState :: int
  testExprType :: int
  cmdStateNew :: int
  sc :: StyleContext

definition SetLineState :: "int \<Rightarrow> int \<Rightarrow> StyleContext \<Rightarrow> StyleContext" where
  "SetLineState ln v c = c\<lparr>lineState := (lineState c)(ln := v)\<rparr>"

definition multi_line_style :: "style \<Rightarrow> bool" where
  "multi_line_style st =
     (st = SCE_SH_STRING \<or> st = SCE_SH_BACKTICKS \<or> st = SCE_SH_CHARACTER
      \<or> st = SCE_SH_HERE_Q \<or> st = SCE_SH_COMMENTLINE \<or> st = SCE_SH_PARAM)"

text \<open>Lines 260 to 277: line continuation and the per-line stored state.\<close>

definition line_start_update :: "string \<Rightarrow> BashLexer \<Rightarrow> BashLexer" where
  "line_start_update doc L =
     (if atLineStart (sc L) then
        (let ln = GetLine doc (currentPos (sc L)) in
         if multi_line_style (state (sc L))
         then L\<lparr>sc := SetLineState ln BASH_CMD_BODY (sc L)\<rparr>
         else
           (let L1 =
              (if ln > 0 then
                 (if (GetRelative doc (sc L) (- 3) = BSLASH \<and> GetRelative doc (sc L) (- 2) = CR
                      \<and> chPrev (sc L) = LF)
                     \<or> GetRelative doc (sc L) (- 2) = BSLASH
                  then L else L\<lparr>cmdState := BASH_CMD_START\<rparr>)
               else L)
            in L1\<lparr>sc := SetLineState ln (cmdState L1) (sc L1)\<rparr>))
      else L)"

text \<open>Lines 282 to 284.\<close>

definition init_cmdStateNew :: "BashLexer \<Rightarrow> BashLexer" where
  "init_cmdStateNew L =
     L\<lparr>cmdStateNew :=
         (if cmdState L = BASH_CMD_TEST \<or> cmdState L = BASH_CMD_ARITH \<or> cmdState L = BASH_CMD_WORD
          then cmdState L else BASH_CMD_BODY)\<rparr>"

section \<open>ColouriseBashDoc: the switch that ends the current state\<close>

definition case_OPERATOR :: "string \<Rightarrow> BashLexer \<Rightarrow> BashLexer" where
  "case_OPERATOR doc L =
     (let L1 = L\<lparr>sc := SetState doc SCE_SH_DEFAULT (sc L)\<rparr> in
      if cmdState L1 = BASH_CMD_DELIM then L1\<lparr>cmdStateNew := BASH_CMD_START\<rparr>
      else if chPrev (sc L1) = BSLASH then L1\<lparr>cmdStateNew := cmdState L1\<rparr>
      else L1)"

definition first_is :: "string \<Rightarrow> char \<Rightarrow> bool" where
  "first_is s c = (case s of [] \<Rightarrow> c = NUL | d # _ \<Rightarrow> d = c)"

text \<open>Lines 317 to 348: what the finished word is, once \<^verbatim>\<open>cmdState\<close> is not \<^verbatim>\<open>BASH_CMD_WORD\<close>.\<close>

definition classify_word :: "string list \<Rightarrow> string \<Rightarrow> bool \<Rightarrow> BashLexer \<Rightarrow> BashLexer" where
  "classify_word keywords s keywordEnds L =
     (if strcmp_eq s ''test'' then
        (if cmdState L = BASH_CMD_START \<and> keywordEnds
         then L\<lparr>cmdStateNew := BASH_CMD_TEST, testExprType := 0\<rparr>
         else L\<lparr>sc := ChangeState SCE_SH_IDENTIFIER (sc L)\<rparr>)
      else if InList bashStruct s then
        (if cmdState L = BASH_CMD_START \<and> keywordEnds
         then L\<lparr>cmdStateNew := BASH_CMD_START\<rparr>
         else L\<lparr>sc := ChangeState SCE_SH_IDENTIFIER (sc L)\<rparr>)
      else if InList bashStruct_in s then
        (if cmdState L = BASH_CMD_START \<and> keywordEnds
         then L\<lparr>cmdStateNew := BASH_CMD_WORD\<rparr>
         else L\<lparr>sc := ChangeState SCE_SH_IDENTIFIER (sc L)\<rparr>)
      else if first_is s CHR ''-'' then
        (if cmdState L \<noteq> BASH_CMD_TEST
         then L\<lparr>sc := ChangeState SCE_SH_IDENTIFIER (sc L)\<rparr> else L)
      else if cmdState L \<noteq> BASH_CMD_START \<or> \<not> (InList keywords s \<and> keywordEnds)
        then L\<lparr>sc := ChangeState SCE_SH_IDENTIFIER (sc L)\<rparr>
      else L)"

definition case_WORD :: "string \<Rightarrow> string list \<Rightarrow> BashLexer \<Rightarrow> BashLexer" where
  "case_WORD doc keywords L =
     (if \<not> Contains setWord (ch (sc L)) \<or> (ch (sc L) = CHR ''+'' \<and> chNext (sc L) = CHR ''='') then
        (let s = GetCurrent doc (sc L) 512;
             keywordEnds = (IsASpace (ch (sc L)) \<or> InList cmdDelimiter [ch (sc L)])
         in
         if cmdState L = BASH_CMD_WORD then
           (let L1 =
              (if strcmp_eq s ''in'' \<and> keywordEnds then L\<lparr>cmdStateNew := BASH_CMD_BODY\<rparr>
               else if strcmp_eq s ''do'' \<and> keywordEnds then L\<lparr>cmdStateNew := BASH_CMD_START\<rparr>
               else L\<lparr>sc := ChangeState SCE_SH_IDENTIFIER (sc L)\<rparr>)
            in L1\<lparr>sc := SetState doc SCE_SH_DEFAULT (sc L1)\<rparr>)
         else
           (let L1 = classify_word keywords s keywordEnds L in
            if strcmp_eq s ''dnl'' then
              (let L2 = L1\<lparr>sc := ChangeState SCE_SH_COMMENTLINE (sc L1)\<rparr> in
               if atLineEnd (sc L2) then L2\<lparr>sc := SetState doc SCE_SH_DEFAULT (sc L2)\<rparr> else L2)
            else
              L1\<lparr>sc := SetState doc
                     (if ch (sc L1) = CHR ''+'' \<and> chNext (sc L1) = CHR ''=''
                      then SCE_SH_OPERATOR else SCE_SH_DEFAULT) (sc L1)\<rparr>))
      else L)"

definition case_IDENTIFIER :: "string \<Rightarrow> BashLexer \<Rightarrow> BashLexer" where
  "case_IDENTIFIER doc L =
     (if chPrev (sc L) = BSLASH then L\<lparr>sc := ForwardSetState doc SCE_SH_DEFAULT (sc L)\<rparr>
      else if \<not> Contains setWord (ch (sc L)) then L\<lparr>sc := SetState doc SCE_SH_DEFAULT (sc L)\<rparr>
      else if cmdState L = BASH_CMD_ARITH \<and> \<not> Contains setWordStart (ch (sc L))
        then L\<lparr>sc := SetState doc SCE_SH_DEFAULT (sc L)\<rparr>
      else L)"

text \<open>Lines 412 to 420: the numeral is at an end, or in error.\<close>

definition number_end :: "string \<Rightarrow> BashLexer \<Rightarrow> BashLexer" where
  "number_end doc L =
     (let L1 = (if numBase L = BASH_BASE_ERROR
                then L\<lparr>sc := ChangeState SCE_SH_ERROR (sc L)\<rparr> else L)
      in L1\<lparr>sc := SetState doc SCE_SH_DEFAULT (sc L1)\<rparr>)"

text \<open>Lines 400 to 403: case-insensitive if the base is at most 36.\<close>

definition fold_digit :: "int \<Rightarrow> int \<Rightarrow> int" where
  "fold_digit base digit = (if base \<le> 36 \<and> digit \<ge> 36 then digit - 26 else digit)"

definition case_NUMBER :: "string \<Rightarrow> BashLexer \<Rightarrow> BashLexer" where
  "case_NUMBER doc L =
     (let digit = translateBashDigit (ch (sc L)) in
      if numBase L = BASH_BASE_DECIMAL then
        (if ch (sc L) = CHR ''#'' then
           (let L1 = L\<lparr>numBase := getBashNumberBase (GetCurrent doc (sc L) 10)\<rparr> in
            if numBase L1 \<noteq> BASH_BASE_ERROR then L1 else number_end doc L1)
         else if IsADigit (ch (sc L)) then L
         else number_end doc L)
      else if numBase L = BASH_BASE_HEX then
        (if IsHexDigit (ch (sc L)) then L else number_end doc L)
      else if numBase L = BASH_BASE_ERROR then
        (if digit \<le> 9 then L else number_end doc L)
      else
        (if digit \<noteq> BASH_BASE_ERROR then
           (let digit1 = fold_digit (numBase L) digit in
            if digit1 < numBase L then L
            else if digit1 \<le> 9 then L\<lparr>numBase := BASH_BASE_ERROR\<rparr>
            else number_end doc L)
         else number_end doc L))"

definition case_COMMENTLINE :: "string \<Rightarrow> BashLexer \<Rightarrow> BashLexer" where
  "case_COMMENTLINE doc L =
     (if atLineEnd (sc L) \<and> chPrev (sc L) \<noteq> BSLASH
      then L\<lparr>sc := SetState doc SCE_SH_DEFAULT (sc L)\<rparr> else L)"

text \<open>Lines 434 to 460: \<^verbatim>\<open>HereDoc.State == 0\<close>, the operator has just been seen.\<close>

definition here_delim_announced :: "string \<Rightarrow> BashLexer \<Rightarrow> BashLexer" where
  "here_delim_announced doc L =
     (let c = chNext (sc L);
          H1 = Delimiter_write 0 NUL
                 ((HereDoc L)\<lparr>HQuote := c, Quoted := False, DelimiterLength := 0\<rparr>);
          L1 = L\<lparr>HereDoc := H1\<rparr>
      in
      if c = SQUOTE \<or> c = DQUOTE then
        L1\<lparr>sc := Forward doc (sc L1), HereDoc := H1\<lparr>Quoted := True, State := 1\<rparr>\<rparr>
      else if Contains setHereDoc c \<or> (c = CHR ''='' \<and> cmdState L \<noteq> BASH_CMD_ARITH) then
        L1\<lparr>HereDoc := H1\<lparr>State := 1\<rparr>\<rparr>
      else if c = CHR ''<'' then
        L1\<lparr>sc := ForwardSetState doc SCE_SH_DEFAULT (Forward doc (sc L1))\<rparr>
      else if IsASpace c then L1
      else if Contains setLeftShift c \<or> (c = CHR ''='' \<and> cmdState L = BASH_CMD_ARITH) then
        L1\<lparr>sc := ForwardSetState doc SCE_SH_DEFAULT (ChangeState SCE_SH_OPERATOR (sc L1))\<rparr>
      else L1\<lparr>HereDoc := H1\<lparr>State := 1\<rparr>\<rparr>)"

text \<open>Lines 461 to 485: \<^verbatim>\<open>HereDoc.State == 1\<close>, the delimiter is collected: first the
  character at the cursor (lines 464 to 480), then the check of the length (lines 481 to 484).\<close>

definition collect_char :: "string \<Rightarrow> BashLexer \<Rightarrow> BashLexer" where
  "collect_char doc L =
     (let H = HereDoc L; c = ch (sc L) in
      if (HQuote H = SQUOTE \<and> c \<noteq> HQuote H)
         \<or> (Quoted H \<and> c \<noteq> HQuote H \<and> c \<noteq> BSLASH)
         \<or> (HQuote H \<noteq> SQUOTE \<and> chPrev (sc L) = BSLASH)
         \<or> Contains setHereDoc2 c
      then L\<lparr>HereDoc := Append c H\<rparr>
      else if Quoted H \<and> c = HQuote H then
        L\<lparr>sc := ForwardSetState doc SCE_SH_DEFAULT (sc L)\<rparr>
      else if c = BSLASH then
        (if Quoted H \<and> chNext (sc L) \<noteq> HQuote H \<and> chNext (sc L) \<noteq> BSLASH
         then L\<lparr>HereDoc := Append c H\<rparr> else L)
      else if \<not> Quoted H then L\<lparr>sc := SetState doc SCE_SH_DEFAULT (sc L)\<rparr>
      else L)"

definition here_delim_collect :: "string \<Rightarrow> BashLexer \<Rightarrow> BashLexer" where
  "here_delim_collect doc L =
     (let L1 = collect_char doc L in
      if DelimiterLength (HereDoc L1) \<ge> HERE_DELIM_MAX - 1
      then L1\<lparr>sc := SetState doc SCE_SH_ERROR (sc L1), HereDoc := (HereDoc L1)\<lparr>State := 0\<rparr>\<rparr>
      else L1)"

definition case_HERE_DELIM :: "string \<Rightarrow> BashLexer \<Rightarrow> BashLexer" where
  "case_HERE_DELIM doc L =
     (if State (HereDoc L) = 0 then here_delim_announced doc L
      else if State (HereDoc L) = 1 then here_delim_collect doc L
      else L)"

text \<open>The two inner loops of the here-document body (lines 492 to 500).\<close>

lemma Forward_measure:
  "\<not> atLineEnd c \<Longrightarrow>
   nat (endPos (Forward doc c) - currentPos (Forward doc c))
     + (if atLineEnd (Forward doc c) then 0 else 1)
   < nat (endPos c - currentPos c) + (if atLineEnd c then 0 else 1)"
  by (auto simp: Forward_def GetNextChar_def)

function skip_tabs :: "string \<Rightarrow> StyleContext \<Rightarrow> int \<Rightarrow> StyleContext \<times> int" where
  "skip_tabs doc c prefixws =
     (if ch c = TAB \<and> \<not> atLineEnd c then skip_tabs doc (Forward doc c) (prefixws + 1)
      else (c, prefixws))"
  by pat_completeness auto
termination skip_tabs
  apply (relation "measure (\<lambda>(doc, c, n).
           nat (endPos c - currentPos c) + (if atLineEnd c then 0 else 1))")
   apply simp
  using Forward_measure apply simp
  done

declare skip_tabs.simps [simp del]

function to_line_end :: "string \<Rightarrow> StyleContext \<Rightarrow> StyleContext" where
  "to_line_end doc c = (if \<not> atLineEnd c then to_line_end doc (Forward doc c) else c)"
  by pat_completeness auto
termination to_line_end
  apply (relation "measure (\<lambda>(doc, c).
           nat (endPos c - currentPos c) + (if atLineEnd c then 0 else 1))")
   apply simp
  using Forward_measure apply simp
  done

declare to_line_end.simps [simp del]

text \<open>Lines 509 and 510: a CR that ends the line's text is cut off.  (On an empty C string
  the source reads the byte before the buffer; the model leaves the string as it is.)\<close>

definition strip_CR :: "string \<Rightarrow> string" where
  "strip_CR s = (let t = c_str s in if t \<noteq> [] \<and> last t = CR then butlast t else t)"

definition case_HERE_Q :: "string \<Rightarrow> BashLexer \<Rightarrow> BashLexer" where
  "case_HERE_Q doc L =
     (if atLineStart (sc L) then
        (let c1 = SetState doc SCE_SH_HERE_Q (sc L) in
         case skip_tabs doc c1 0 of (c2, prefixws) \<Rightarrow>
           (let c3 = (if prefixws > 0 then SetState doc SCE_SH_HERE_Q c2 else c2);
                c4 = to_line_end doc c3;
                s = GetCurrent doc c4 (nat HERE_DELIM_MAX)
            in
            if LengthCurrent c4 = 0 then
              (if (prefixws = 0 \<or> Indent (HereDoc L)) \<and> Quoted (HereDoc L)
                  \<and> DelimiterLength (HereDoc L) = 0
               then L\<lparr>sc := SetState doc SCE_SH_DEFAULT c4\<rparr> else L\<lparr>sc := c4\<rparr>)
            else if strcmp_eq (Delimiter (HereDoc L)) (strip_CR s)
                    \<and> (prefixws = 0 \<or> (prefixws > 0 \<and> Indent (HereDoc L)))
              then L\<lparr>sc := SetState doc SCE_SH_DEFAULT c4\<rparr>
            else L\<lparr>sc := c4\<rparr>))
      else L)"

definition case_SCALAR :: "string \<Rightarrow> BashLexer \<Rightarrow> BashLexer" where
  "case_SCALAR doc L =
     (if \<not> Contains setParam (ch (sc L)) then
        (if LengthCurrent (sc L) = 1 then L\<lparr>sc := ForwardSetState doc SCE_SH_DEFAULT (sc L)\<rparr>
         else L\<lparr>sc := SetState doc SCE_SH_DEFAULT (sc L)\<rparr>)
      else L)"

text \<open>Lines 546 to 576: a nested context opens inside a string or a command.\<close>

definition forward_push :: "string \<Rightarrow> int \<Rightarrow> BashLexer \<Rightarrow> BashLexer" where
  "forward_push doc s L =
     (let c1 = Forward doc (sc L) in L\<lparr>sc := c1, QuoteStack := Push (ch c1) s (QuoteStack L)\<rparr>)"

definition string_nesting :: "string \<Rightarrow> BashLexer \<Rightarrow> BashLexer" where
  "string_nesting doc L =
     (let Q = QuoteStack L; c = ch (sc L); n = chNext (sc L) in
      if Style Q = BASH_DELIM_STRING \<or> Style Q = BASH_DELIM_LSTRING then
        (if c = BTICK then L\<lparr>QuoteStack := Push c BASH_DELIM_BACKTICK Q\<rparr>
         else if c = CHR ''$'' \<and> n = CHR ''('' then forward_push doc BASH_DELIM_COMMAND L
         else L)
      else if Style Q = BASH_DELIM_COMMAND \<or> Style Q = BASH_DELIM_BACKTICK then
        (if c = SQUOTE then L\<lparr>QuoteStack := Push c BASH_DELIM_LITERAL Q\<rparr>
         else if c = DQUOTE then L\<lparr>QuoteStack := Push c BASH_DELIM_STRING Q\<rparr>
         else if c = BTICK then L\<lparr>QuoteStack := Push c BASH_DELIM_BACKTICK Q\<rparr>
         else if c = CHR ''$'' then
           (if n = SQUOTE then forward_push doc BASH_DELIM_CSTRING L
            else if n = DQUOTE then forward_push doc BASH_DELIM_LSTRING L
            else if n = CHR ''('' then forward_push doc BASH_DELIM_COMMAND L
            else L)
         else L)
      else L)"

definition case_STRING :: "string \<Rightarrow> BashLexer \<Rightarrow> BashLexer" where
  "case_STRING doc L =
     (let Q = QuoteStack L; c = ch (sc L) in
      if c = BSLASH \<and> Up Q \<noteq> BSLASH then
        (if Style Q \<noteq> BASH_DELIM_LITERAL then L\<lparr>sc := Forward doc (sc L)\<rparr> else L)
      else if c = Down Q then
        (let Q1 = Q\<lparr>Count := Count Q - 1\<rparr> in
         if Count Q1 = 0 then
           (if Depth Q1 > 0 then L\<lparr>QuoteStack := Pop Q1\<rparr>
            else L\<lparr>QuoteStack := Q1, sc := ForwardSetState doc SCE_SH_DEFAULT (sc L)\<rparr>)
         else L\<lparr>QuoteStack := Q1\<rparr>)
      else if c = Up Q then L\<lparr>QuoteStack := Q\<lparr>Count := Count Q + 1\<rparr>\<rparr>
      else string_nesting doc L)"

definition case_PARAM :: "string \<Rightarrow> BashLexer \<Rightarrow> BashLexer" where
  "case_PARAM doc L =
     (let q = Quote L; c = ch (sc L) in
      if c = BSLASH \<and> QUp q \<noteq> BSLASH then L\<lparr>sc := Forward doc (sc L)\<rparr>
      else if c = QDown q then
        (let q1 = q\<lparr>QCount := QCount q - 1\<rparr> in
         if QCount q1 = 0
         then L\<lparr>Quote := q1, sc := ForwardSetState doc SCE_SH_DEFAULT (sc L)\<rparr>
         else L\<lparr>Quote := q1\<rparr>)
      else if c = QUp q then L\<lparr>Quote := q\<lparr>QCount := QCount q + 1\<rparr>\<rparr>
      else L)"

definition case_CHARACTER :: "string \<Rightarrow> BashLexer \<Rightarrow> BashLexer" where
  "case_CHARACTER doc L =
     (let q = Quote L in
      if ch (sc L) = QDown q then
        (let q1 = q\<lparr>QCount := QCount q - 1\<rparr> in
         if QCount q1 = 0
         then L\<lparr>Quote := q1, sc := ForwardSetState doc SCE_SH_DEFAULT (sc L)\<rparr>
         else L\<lparr>Quote := q1\<rparr>)
      else L)"

text \<open>The switch on \<^verbatim>\<open>sc.state\<close> (lines 288 to 599).  \<^verbatim>\<open>SCE_SH_DEFAULT\<close> and \<^verbatim>\<open>SCE_SH_ERROR\<close>
  have no case.\<close>

definition terminate_state :: "string \<Rightarrow> string list \<Rightarrow> BashLexer \<Rightarrow> BashLexer" where
  "terminate_state doc keywords L =
     (case state (sc L) of
        SCE_SH_OPERATOR \<Rightarrow> case_OPERATOR doc L
      | SCE_SH_WORD \<Rightarrow> case_WORD doc keywords L
      | SCE_SH_IDENTIFIER \<Rightarrow> case_IDENTIFIER doc L
      | SCE_SH_NUMBER \<Rightarrow> case_NUMBER doc L
      | SCE_SH_COMMENTLINE \<Rightarrow> case_COMMENTLINE doc L
      | SCE_SH_HERE_DELIM \<Rightarrow> case_HERE_DELIM doc L
      | SCE_SH_HERE_Q \<Rightarrow> case_HERE_Q doc L
      | SCE_SH_SCALAR \<Rightarrow> case_SCALAR doc L
      | SCE_SH_STRING \<Rightarrow> case_STRING doc L
      | SCE_SH_BACKTICKS \<Rightarrow> case_STRING doc L
      | SCE_SH_PARAM \<Rightarrow> case_PARAM doc L
      | SCE_SH_CHARACTER \<Rightarrow> case_CHARACTER doc L
      | SCE_SH_DEFAULT \<Rightarrow> L
      | SCE_SH_ERROR \<Rightarrow> L)"

text \<open>Lines 601 to 624: the end of the line that holds the here-document's delimiter.\<close>

definition here_doc_line_end :: "string \<Rightarrow> BashLexer \<Rightarrow> BashLexer" where
  "here_doc_line_end doc L =
     (if State (HereDoc L) = 1 \<and> atLineEnd (sc L) then
        (let L1 = L\<lparr>HereDoc := (HereDoc L)\<lparr>State := 2\<rparr>\<rparr> in
         if Quoted (HereDoc L1) then
           (if state (sc L1) = SCE_SH_HERE_DELIM
            then L1\<lparr>sc := SetState doc SCE_SH_DEFAULT (ChangeState SCE_SH_ERROR (sc L1))\<rparr>
            else L1\<lparr>sc := SetState doc SCE_SH_HERE_Q (sc L1)\<rparr>)
         else if DelimiterLength (HereDoc L1) = 0
           then L1\<lparr>sc := SetState doc SCE_SH_DEFAULT (ChangeState SCE_SH_ERROR (sc L1))\<rparr>
         else L1\<lparr>sc := SetState doc SCE_SH_HERE_Q (sc L1)\<rparr>)
      else L)"

text \<open>Lines 626 to 629.\<close>

definition update_cmdState :: "style \<Rightarrow> BashLexer \<Rightarrow> BashLexer" where
  "update_cmdState stylePrev L =
     (if stylePrev \<noteq> SCE_SH_DEFAULT \<and> state (sc L) = SCE_SH_DEFAULT
      then L\<lparr>cmdState := cmdStateNew L\<rparr> else L)"

section \<open>ColouriseBashDoc: entering a new state\<close>

text \<open>Lines 638 to 652: a numeral begins.\<close>

definition enter_number :: "string \<Rightarrow> BashLexer \<Rightarrow> BashLexer" where
  "enter_number doc L =
     (let L1 = L\<lparr>sc := SetState doc SCE_SH_NUMBER (sc L), numBase := BASH_BASE_DECIMAL\<rparr> in
      if ch (sc L1) = CHR ''0'' then
        (if chNext (sc L1) = CHR ''x'' \<or> chNext (sc L1) = CHR ''X''
         then L1\<lparr>numBase := BASH_BASE_HEX, sc := Forward doc (sc L1)\<rparr>
         else if IsADigit (chNext (sc L1)) then L1\<lparr>numBase := BASH_BASE_HEX\<rparr>
         else L1)
      else L1)"

text \<open>Lines 656 to 679: a hash sign.\<close>

definition enter_hash :: "string \<Rightarrow> style \<Rightarrow> BashLexer \<Rightarrow> BashLexer" where
  "enter_hash doc stylePrev L =
     (let L1 =
        (if stylePrev \<noteq> SCE_SH_WORD \<and> stylePrev \<noteq> SCE_SH_IDENTIFIER
            \<and> (currentPos (sc L) = 0 \<or> Contains setMetaCharacter (chPrev (sc L)))
         then L\<lparr>sc := SetState doc SCE_SH_COMMENTLINE (sc L)\<rparr>
         else L\<lparr>sc := SetState doc SCE_SH_WORD (sc L)\<rparr>)
      in
      if cmdState L1 = BASH_CMD_ARITH then
        (if chPrev (sc L1) = CHR ''['' then
           (let L2 = L1\<lparr>sc := SetState doc SCE_SH_WORD (sc L1)\<rparr> in
            if chNext (sc L2) = CHR ''#'' then L2\<lparr>sc := Forward doc (sc L2)\<rparr> else L2)
         else if ch (sc L1) = CHR ''#'' \<and> chNext (sc L1) = CHR ''#''
                 \<and> GetRelative doc (sc L1) 2 = CHR ''^''
                 \<and> IsUpperCase (GetRelative doc (sc L1) 3) then
           L1\<lparr>sc := ForwardN doc 3 (SetState doc SCE_SH_IDENTIFIER (sc L1))\<rparr>
         else if chNext (sc L1) = CHR ''#'' \<and> \<not> IsASpace (GetRelative doc (sc L1) 2) then
           L1\<lparr>sc := ForwardN doc 2 (SetState doc SCE_SH_IDENTIFIER (sc L1))\<rparr>
         else if Contains setWordStart (chNext (sc L1)) then
           L1\<lparr>sc := SetState doc SCE_SH_IDENTIFIER (sc L1)\<rparr>
         else L1)
      else L1)"

text \<open>Lines 689 to 713: a dollar sign.\<close>

definition enter_dollar :: "string \<Rightarrow> BashLexer \<Rightarrow> BashLexer" where
  "enter_dollar doc L =
     (if chNext (sc L) = CHR ''('' \<or> chNext (sc L) = CHR ''[''
      then L\<lparr>sc := SetState doc SCE_SH_OPERATOR (sc L)\<rparr>
      else
        (let c1 = Forward doc (SetState doc SCE_SH_SCALAR (sc L)) in
         if ch c1 = CHR ''{'' then
           L\<lparr>sc := ChangeState SCE_SH_PARAM c1, Quote := Quote_Start (ch c1) (Quote L)\<rparr>
         else if ch c1 = SQUOTE then
           L\<lparr>sc := ChangeState SCE_SH_STRING c1,
              QuoteStack := Start (ch c1) BASH_DELIM_CSTRING (QuoteStack L)\<rparr>
         else if ch c1 = DQUOTE then
           L\<lparr>sc := ChangeState SCE_SH_STRING c1,
              QuoteStack := Start (ch c1) BASH_DELIM_LSTRING (QuoteStack L)\<rparr>
         else if ch c1 = CHR ''('' then
           L\<lparr>sc := ChangeState SCE_SH_BACKTICKS c1,
              QuoteStack := Start (ch c1) BASH_DELIM_COMMAND (QuoteStack L)\<rparr>
         else if ch c1 = BTICK then
           L\<lparr>sc := ChangeState SCE_SH_BACKTICKS c1,
              QuoteStack := Start (ch c1) BASH_DELIM_BACKTICK (QuoteStack L)\<rparr>
         else L\<lparr>sc := c1\<rparr>))"

text \<open>Lines 714 to 722: the here-document operator.\<close>

definition enter_here_delim :: "string \<Rightarrow> BashLexer \<Rightarrow> BashLexer" where
  "enter_here_delim doc L =
     (let L1 = L\<lparr>sc := SetState doc SCE_SH_HERE_DELIM (sc L),
                  HereDoc := (HereDoc L)\<lparr>State := 0\<rparr>\<rparr> in
      if GetRelative doc (sc L1) 2 = CHR ''-''
      then L1\<lparr>HereDoc := (HereDoc L1)\<lparr>Indent := True\<rparr>, sc := Forward doc (sc L1)\<rparr>
      else L1\<lparr>HereDoc := (HereDoc L1)\<lparr>Indent := False\<rparr>\<rparr>)"

text \<open>Lines 740 to 753: the opening delimiters of test and arithmetic expressions.\<close>

definition open_expression :: "string \<Rightarrow> BashLexer \<Rightarrow> BashLexer" where
  "open_expression doc L =
     (if cmdState L = BASH_CMD_START \<or> cmdState L = BASH_CMD_BODY then
        (if Match2 (sc L) CHR ''('' CHR ''('' then
           L\<lparr>cmdState := BASH_CMD_ARITH, sc := Forward doc (sc L)\<rparr>
         else if Match2 (sc L) CHR ''['' CHR ''['' \<and> IsASpace (GetRelative doc (sc L) 2) then
           L\<lparr>cmdState := BASH_CMD_TEST, testExprType := 1, sc := Forward doc (sc L)\<rparr>
         else if ch (sc L) = CHR ''['' \<and> IsASpace (chNext (sc L)) then
           L\<lparr>cmdState := BASH_CMD_TEST, testExprType := 2\<rparr>
         else L)
      else L)"

text \<open>Lines 782 to 793: the closing delimiters of test and arithmetic expressions.\<close>

definition close_expression :: "string \<Rightarrow> BashLexer \<Rightarrow> BashLexer" where
  "close_expression doc L =
     (if cmdState L = BASH_CMD_ARITH \<and> Match2 (sc L) CHR '')'' CHR '')'' then
        L\<lparr>cmdState := BASH_CMD_BODY, sc := Forward doc (sc L)\<rparr>
      else if cmdState L = BASH_CMD_TEST \<and> IsASpace (chPrev (sc L)) then
        (if Match2 (sc L) CHR '']'' CHR '']'' \<and> testExprType L = 1 then
           L\<lparr>sc := Forward doc (sc L), cmdState := BASH_CMD_BODY\<rparr>
         else if ch (sc L) = CHR '']'' \<and> testExprType L = 2 then
           L\<lparr>cmdState := BASH_CMD_BODY\<rparr>
         else L)
      else L)"

text \<open>Lines 760 to 781: command delimiters; the last part runs when none is found.\<close>

definition command_delimiter :: "string \<Rightarrow> BashLexer \<Rightarrow> BashLexer" where
  "command_delimiter doc L =
     (if cmdState L = BASH_CMD_START \<or> cmdState L = BASH_CMD_BODY \<or> cmdState L = BASH_CMD_WORD
         \<or> (cmdState L = BASH_CMD_TEST \<and> testExprType L = 0) then
        (let s0 = ch (sc L);
             two = (Contains setBashOperator (chNext (sc L))
                    \<and> InList cmdDelimiter [s0, chNext (sc L)]);
             L1 = (if two then L\<lparr>sc := Forward doc (sc L)\<rparr> else L);
             isCmdDelim = (two \<or> InList cmdDelimiter [s0])
         in
         if isCmdDelim then L1\<lparr>cmdState := BASH_CMD_DELIM\<rparr>
         else close_expression doc L1)
      else close_expression doc L)"

text \<open>Lines 729 to 794: an operator character.\<close>

definition enter_operator :: "string \<Rightarrow> BashLexer \<Rightarrow> BashLexer" where
  "enter_operator doc L =
     (let L1 = L\<lparr>sc := SetState doc SCE_SH_OPERATOR (sc L)\<rparr>;
          glob = (if cmdState L1 \<noteq> BASH_CMD_ARITH \<and> ch (sc L1) = CHR ''(''
                     \<and> chNext (sc L1) \<noteq> CHR ''(''
                  then GlobScan doc (sc L1) else (0, sc L1));
          i = fst glob;
          L2 = L1\<lparr>sc := snd glob\<rparr>
      in
      if i > 1 then L2\<lparr>sc := ForwardN doc (nat i) (SetState doc SCE_SH_IDENTIFIER (sc L2))\<rparr>
      else
        (let L3 = open_expression doc L2 in
         if cmdState L3 = BASH_CMD_WORD \<and> Match2 (sc L3) CHR ''('' CHR ''('' then
           L3\<lparr>cmdState := BASH_CMD_ARITH, sc := Forward doc (sc L3)\<rparr>
         else command_delimiter doc L3))"

text \<open>Lines 630 to 795: \<^verbatim>\<open>if (sc.state == SCE_SH_DEFAULT)\<close>.\<close>

definition enter_state :: "string \<Rightarrow> style \<Rightarrow> BashLexer \<Rightarrow> BashLexer" where
  "enter_state doc stylePrev L =
     (let c = ch (sc L) in
      if state (sc L) \<noteq> SCE_SH_DEFAULT then L
      else if c = BSLASH then
        (let c1 = SetState doc SCE_SH_IDENTIFIER (sc L) in
         if chNext c1 = CR \<or> chNext c1 = LF then L\<lparr>sc := SetState doc SCE_SH_DEFAULT c1\<rparr>
         else L\<lparr>sc := c1\<rparr>)
      else if IsADigit c then enter_number doc L
      else if Contains setWordStart c then L\<lparr>sc := SetState doc SCE_SH_WORD (sc L)\<rparr>
      else if c = CHR ''#'' then enter_hash doc stylePrev L
      else if c = DQUOTE then
        L\<lparr>sc := SetState doc SCE_SH_STRING (sc L),
           QuoteStack := Start c BASH_DELIM_STRING (QuoteStack L)\<rparr>
      else if c = SQUOTE then
        L\<lparr>sc := SetState doc SCE_SH_CHARACTER (sc L), Quote := Quote_Start c (Quote L)\<rparr>
      else if c = BTICK then
        L\<lparr>sc := SetState doc SCE_SH_BACKTICKS (sc L),
           QuoteStack := Start c BASH_DELIM_BACKTICK (QuoteStack L)\<rparr>
      else if c = CHR ''$'' then enter_dollar doc L
      else if Match2 (sc L) CHR ''<'' CHR ''<'' then enter_here_delim doc L
      else if c = CHR ''-'' \<and> Contains setSingleCharOp (chNext (sc L))
              \<and> \<not> Contains setWord (GetRelative doc (sc L) 2) \<and> IsASpace (chPrev (sc L)) then
        L\<lparr>sc := Forward doc (SetState doc SCE_SH_WORD (sc L))\<rparr>
      else if Contains setBashOperator c then enter_operator doc L
      else L)"

section \<open>ColouriseBashDoc: the loop and the pass\<close>

text \<open>One turn of \<^verbatim>\<open>for (; sc.More(); sc.Forward())\<close>: the body, lines 260 to 795.\<close>

definition loop_body :: "string \<Rightarrow> string list \<Rightarrow> BashLexer \<Rightarrow> BashLexer" where
  "loop_body doc keywords L =
     (let L1 = init_cmdStateNew (line_start_update doc L);
          stylePrev = state (sc L1);
          L2 = terminate_state doc keywords L1;
          L3 = here_doc_line_end doc L2;
          L4 = update_cmdState stylePrev L3
      in enter_state doc stylePrev L4)"

text \<open>The loop ends because no step of the body moves the cursor back or changes where
  the pass ends: \<open>adv c d\<close> says that cursor \<open>d\<close> is cursor \<open>c\<close> after some such steps.\<close>

definition adv :: "StyleContext \<Rightarrow> StyleContext \<Rightarrow> bool" where
  "adv c d = (endPos d = endPos c \<and> currentPos c \<le> currentPos d)"

lemma adv_refl [simp, intro]: "adv c c" by (simp add: adv_def)
lemma adv_trans: "adv a b \<Longrightarrow> adv b c \<Longrightarrow> adv a c" by (auto simp: adv_def)

lemma adv_Forward [simp]: "adv c d \<Longrightarrow> adv c (Forward doc d)"
  by (auto simp: adv_def Forward_def GetNextChar_def)
lemma adv_ColourTo [simp]: "adv c d \<Longrightarrow> adv c (ColourTo p a d)"
  by (auto simp: adv_def ColourTo_def)
lemma adv_SetState [simp]: "adv c d \<Longrightarrow> adv c (SetState doc st d)"
  by (auto simp: adv_def SetState_def ColourTo_def)
lemma adv_ChangeState [simp]: "adv c d \<Longrightarrow> adv c (ChangeState st d)"
  by (auto simp: adv_def ChangeState_def)
lemma adv_ForwardSetState [simp]: "adv c d \<Longrightarrow> adv c (ForwardSetState doc st d)"
  by (simp add: ForwardSetState_def)
lemma adv_SetLineState [simp]: "adv c d \<Longrightarrow> adv c (SetLineState ln v d)"
  by (auto simp: adv_def SetLineState_def)
lemma adv_ForwardN [simp]: "adv c d \<Longrightarrow> adv c (ForwardN doc n d)"
  by (induction n arbitrary: d) auto
lemma adv_skip_tabs [simp]: "adv c d \<Longrightarrow> adv c (fst (skip_tabs doc d n))"
  by (induction doc d n rule: skip_tabs.induct) (subst skip_tabs.simps, auto)
lemma adv_to_line_end [simp]: "adv c d \<Longrightarrow> adv c (to_line_end doc d)"
  by (induction doc d rule: to_line_end.induct) (subst to_line_end.simps, auto)

lemma GlobScan_loop_snd: "snd (GlobScan_loop doc c sLen pCount hash) = c"
proof (induction doc c sLen pCount hash rule: GlobScan_loop.induct)
  case (1 doc c sLen pCount hash)
  obtain x where eq: "GetRelativeCharacter doc (sLen + 1) c = (x, c)"
    by (cases "sLen + 1 = 0") (simp_all add: GetRelativeCharacter_def)
  note IH = 1 [OF eq [symmetric]]
  show ?case
    by (subst GlobScan_loop.simps) (use IH in \<open>auto simp: eq\<close>)
qed

lemma GlobScan_snd [simp]: "snd (GlobScan doc c) = c"
  by (simp add: GlobScan_def GlobScan_loop_snd)

lemma adv_line_start_update [simp]: "adv c (sc L) \<Longrightarrow> adv c (sc (line_start_update doc L))"
  by (auto simp: line_start_update_def Let_def)

lemma adv_init_cmdStateNew [simp]: "sc (init_cmdStateNew L) = sc L"
  by (simp add: init_cmdStateNew_def)

lemma adv_case_OPERATOR [simp]: "adv c (sc L) \<Longrightarrow> adv c (sc (case_OPERATOR doc L))"
  by (auto simp: case_OPERATOR_def Let_def)
lemma sc_classify_word: "sc (classify_word kw s e L) = sc L \<or> sc (classify_word kw s e L) = ChangeState SCE_SH_IDENTIFIER (sc L)"
  by (auto simp: classify_word_def)
lemma adv_classify_word [simp]: "adv c (sc L) \<Longrightarrow> adv c (sc (classify_word kw s e L))"
  using sc_classify_word[of kw s e L] by auto
lemma adv_case_WORD [simp]: "adv c (sc L) \<Longrightarrow> adv c (sc (case_WORD doc kw L))"
  by (auto simp: case_WORD_def Let_def)
lemma adv_case_IDENTIFIER [simp]: "adv c (sc L) \<Longrightarrow> adv c (sc (case_IDENTIFIER doc L))"
  by (auto simp: case_IDENTIFIER_def Let_def)
lemma adv_number_end [simp]: "adv c (sc L) \<Longrightarrow> adv c (sc (number_end doc L))"
  by (auto simp: number_end_def Let_def)
lemma adv_case_NUMBER [simp]: "adv c (sc L) \<Longrightarrow> adv c (sc (case_NUMBER doc L))"
  by (auto simp: case_NUMBER_def Let_def)
lemma adv_case_COMMENTLINE [simp]: "adv c (sc L) \<Longrightarrow> adv c (sc (case_COMMENTLINE doc L))"
  by (auto simp: case_COMMENTLINE_def Let_def)
lemma adv_case_HERE_DELIM [simp]: "adv c (sc L) \<Longrightarrow> adv c (sc (case_HERE_DELIM doc L))"
  by (auto simp: case_HERE_DELIM_def here_delim_announced_def here_delim_collect_def
      collect_char_def Let_def)
lemma adv_case_HERE_Q [simp]: "adv c (sc L) \<Longrightarrow> adv c (sc (case_HERE_Q doc L))"
  apply (auto simp: case_HERE_Q_def Let_def split: prod.splits)
  apply (metis adv_skip_tabs adv_SetState adv_to_line_end fst_conv)+
  done
lemma adv_case_SCALAR [simp]: "adv c (sc L) \<Longrightarrow> adv c (sc (case_SCALAR doc L))"
  by (auto simp: case_SCALAR_def Let_def)
lemma adv_case_STRING [simp]: "adv c (sc L) \<Longrightarrow> adv c (sc (case_STRING doc L))"
  by (auto simp: case_STRING_def string_nesting_def forward_push_def Let_def)
lemma adv_case_PARAM [simp]: "adv c (sc L) \<Longrightarrow> adv c (sc (case_PARAM doc L))"
  by (auto simp: case_PARAM_def Let_def)
lemma adv_case_CHARACTER [simp]: "adv c (sc L) \<Longrightarrow> adv c (sc (case_CHARACTER doc L))"
  by (auto simp: case_CHARACTER_def Let_def)
lemma adv_terminate_state [simp]: "adv c (sc L) \<Longrightarrow> adv c (sc (terminate_state doc kw L))"
  by (auto simp: terminate_state_def split: style.splits)
lemma adv_here_doc_line_end [simp]: "adv c (sc L) \<Longrightarrow> adv c (sc (here_doc_line_end doc L))"
  by (auto simp: here_doc_line_end_def Let_def)
lemma adv_update_cmdState [simp]: "sc (update_cmdState sp L) = sc L"
  by (simp add: update_cmdState_def)
lemma adv_enter_number [simp]: "adv c (sc L) \<Longrightarrow> adv c (sc (enter_number doc L))"
  by (auto simp: enter_number_def Let_def)
lemma adv_enter_hash [simp]: "adv c (sc L) \<Longrightarrow> adv c (sc (enter_hash doc sp L))"
  by (auto simp: enter_hash_def Let_def)
lemma adv_enter_dollar [simp]: "adv c (sc L) \<Longrightarrow> adv c (sc (enter_dollar doc L))"
  by (auto simp: enter_dollar_def Let_def)
lemma adv_enter_here_delim [simp]: "adv c (sc L) \<Longrightarrow> adv c (sc (enter_here_delim doc L))"
  by (auto simp: enter_here_delim_def Let_def)
lemma adv_open_expression [simp]: "adv c (sc L) \<Longrightarrow> adv c (sc (open_expression doc L))"
  by (auto simp: open_expression_def Let_def)
lemma adv_close_expression [simp]: "adv c (sc L) \<Longrightarrow> adv c (sc (close_expression doc L))"
  by (auto simp: close_expression_def Let_def)
lemma adv_command_delimiter [simp]: "adv c (sc L) \<Longrightarrow> adv c (sc (command_delimiter doc L))"
  by (auto simp: command_delimiter_def Let_def)
lemma adv_enter_operator [simp]: "adv c (sc L) \<Longrightarrow> adv c (sc (enter_operator doc L))"
  by (auto simp: enter_operator_def Let_def)
lemma adv_enter_state [simp]: "adv c (sc L) \<Longrightarrow> adv c (sc (enter_state doc sp L))"
  by (auto simp: enter_state_def Let_def)
lemma adv_loop_body: "adv (sc L) (sc (loop_body doc kw L))"
  by (simp add: loop_body_def Let_def)

text \<open>The body and then the loop's \<^verbatim>\<open>sc.Forward()\<close>.\<close>

definition loop_step :: "string \<Rightarrow> string list \<Rightarrow> BashLexer \<Rightarrow> BashLexer" where
  "loop_step doc keywords L =
     (let L1 = loop_body doc keywords L in L1\<lparr>sc := Forward doc (sc L1)\<rparr>)"

function lex_loop :: "string \<Rightarrow> string list \<Rightarrow> BashLexer \<Rightarrow> BashLexer" where
  "lex_loop doc keywords L =
     (if More (sc L) then lex_loop doc keywords (loop_step doc keywords L) else L)"
  by pat_completeness auto

lemma lex_loop_measure:
  assumes "More (sc L)"
  shows "nat (endPos (sc (loop_step doc kw L)) - currentPos (sc (loop_step doc kw L)))
         < nat (endPos (sc L) - currentPos (sc L))"
  using assms adv_loop_body [of L doc kw]
  by (auto simp: loop_step_def Let_def adv_def More_def Forward_def GetNextChar_def)

termination lex_loop
  apply (relation "measure (\<lambda>(doc, kw, L). nat (endPos (sc L) - currentPos (sc L)))")
   apply simp
  using lex_loop_measure apply simp
  done

declare lex_loop.simps [simp del]

text \<open>Lines 245 to 255, the Restart-Point Resolver: from line \<open>ln\<close> back to the nearest line
  whose stored state is \<^verbatim>\<open>BASH_CMD_START\<close>, or to line 0.  The line is a count here:
  \<^verbatim>\<open>GetLine\<close> gives no negative line.\<close>

fun restart_line :: "(int \<Rightarrow> int) \<Rightarrow> nat \<Rightarrow> nat" where
  "restart_line ls 0 = 0"
| "restart_line ls (Suc n) =
     (if ls (int (Suc n)) = BASH_CMD_START then Suc n else restart_line ls n)"

definition restart_pos :: "string \<Rightarrow> (int \<Rightarrow> int) \<Rightarrow> int \<Rightarrow> int" where
  "restart_pos doc ls startPos =
     (let ln = GetLine doc startPos;
          ln1 = (if ln > 0 \<and> startPos = LineStart doc ln then ln - 1 else ln)
      in LineStart doc (int (restart_line ls (nat ln1))))"

definition lexer_init :: "StyleContext \<Rightarrow> BashLexer" where
  "lexer_init c =
     \<lparr>HereDoc = HereDoc_init, Quote = Quote_init, QuoteStack = QuoteStack_init,
      numBase = 0, cmdState = BASH_CMD_START, testExprType = 0,
      cmdStateNew = BASH_CMD_BODY, sc = c\<rparr>"

text \<open>The pass.  \<open>st\<close> and \<open>ls\<close> are the style bytes and the line states the accessor holds
  before the pass; the result is the lexer after the loop and the two \<^verbatim>\<open>sc.Complete()\<close>, whose
  cursor holds the style bytes and line states after it.\<close>

definition ColouriseBashDoc ::
  "string \<Rightarrow> string list \<Rightarrow> int \<Rightarrow> int \<Rightarrow> style list \<Rightarrow> (int \<Rightarrow> int) \<Rightarrow> BashLexer" where
  "ColouriseBashDoc doc keywords startPos len st ls =
     (let endP = startPos + len;
          start = restart_pos doc ls startPos;
          c = StyleContext_init doc start (endP - start) SCE_SH_DEFAULT st ls;
          L = lex_loop doc keywords (lexer_init c)
      in L\<lparr>sc := Complete doc (Complete doc (sc L))\<rparr>)"

text \<open>A pass over the whole of a document that has not been styled yet.\<close>

definition lex_all :: "string \<Rightarrow> string list \<Rightarrow> BashLexer" where
  "lex_all doc keywords =
     ColouriseBashDoc doc keywords 0 (int (length doc))
       (replicate (length doc) SCE_SH_DEFAULT) (\<lambda>_. 0)"

text \<open>A second pass, asked to style the document from offset \<open>p\<close> to its end, over the
  style bytes and line states a first pass has left.\<close>

definition relex_from :: "string \<Rightarrow> string list \<Rightarrow> int \<Rightarrow> BashLexer" where
  "relex_from doc keywords p =
     (let L = lex_all doc keywords in
      ColouriseBashDoc doc keywords p (int (length doc) - p) (styles (sc L)) (lineState (sc L)))"

text \<open>The states of the loop that a pass goes through from \<open>L0\<close>: \<open>L0\<close> itself, and the state
  after one more turn of the loop while \<^verbatim>\<open>sc.More()\<close> holds.\<close>

inductive reach :: "string \<Rightarrow> string list \<Rightarrow> BashLexer \<Rightarrow> BashLexer \<Rightarrow> bool"
  for doc :: string and kw :: "string list" and L0 :: BashLexer where
    reach_init: "reach doc kw L0 L0"
  | reach_step: "reach doc kw L0 L \<Longrightarrow> More (sc L) \<Longrightarrow> reach doc kw L0 (loop_step doc kw L)"

section \<open>FoldBashDoc\<close>

text \<open>The fold flags of \<^verbatim>\<open>Scintilla.h\<close> (not under src/), with their values there.\<close>

abbreviation (input) SC_FOLDLEVELBASE :: int where "SC_FOLDLEVELBASE \<equiv> 0x400"
abbreviation (input) SC_FOLDLEVELWHITEFLAG :: int where "SC_FOLDLEVELWHITEFLAG \<equiv> 0x1000"
abbreviation (input) SC_FOLDLEVELHEADERFLAG :: int where "SC_FOLDLEVELHEADERFLAG \<equiv> 0x2000"
abbreviation (input) SC_FOLDLEVELNUMBERMASK :: int where "SC_FOLDLEVELNUMBERMASK \<equiv> 0x0FFF"
abbreviation (input) MAX_BASH_WORD_LEN :: int where "MAX_BASH_WORD_LEN \<equiv> 15"

text \<open>Modelled from the spec: what the fold pass reads from the accessor besides the bytes:
  the style of a byte (\<^verbatim>\<open>StyleAt\<close>, the default style outside the buffer), the properties
  \<^verbatim>\<open>fold.comment\<close>, \<^verbatim>\<open>fold.compact\<close> and \<^verbatim>\<open>lexer.bash.csh.language\<close>, and the helper
  \<^verbatim>\<open>IsLexCommentLine\<close>, which is not under src/ and is a parameter here.\<close>

definition StyleAt :: "style list \<Rightarrow> int \<Rightarrow> style" where
  "StyleAt sty pos = (if 0 \<le> pos \<and> pos < int (length sty) then sty ! nat pos else SCE_SH_DEFAULT)"

record FoldEnv =
  foldComment :: bool
  foldCompact :: bool
  isCShell :: bool
  IsCommentLine :: "int \<Rightarrow> bool"

text \<open>The variables of the loop, and \<open>levels\<close>, the fold level the accessor holds for every
  line (\<^verbatim>\<open>LevelAt\<close>, \<^verbatim>\<open>SetLevel\<close>).\<close>

record FoldState =
  visibleChars :: int
  skipHereCh :: int
  lineCurrent :: int
  levelPrev :: int
  levelCurrent :: int
  fchNext :: char
  styleNext :: style
  word :: string
  wordlen :: int
  levels :: "int \<Rightarrow> int"

text \<open>Lines 828 to 833: comment folding.\<close>

definition fold_comment :: "FoldEnv \<Rightarrow> bool \<Rightarrow> FoldState \<Rightarrow> FoldState" where
  "fold_comment env atEOL s =
     (if foldComment env \<and> atEOL \<and> IsCommentLine env (lineCurrent s) then
        (if \<not> IsCommentLine env (lineCurrent s - 1) \<and> IsCommentLine env (lineCurrent s + 1)
         then s\<lparr>levelCurrent := levelCurrent s + 1\<rparr>
         else if IsCommentLine env (lineCurrent s - 1) \<and> \<not> IsCommentLine env (lineCurrent s + 1)
         then s\<lparr>levelCurrent := levelCurrent s - 1\<rparr>
         else s)
      else s)"

text \<open>Lines 842 to 854: the level change of a finished word.\<close>

definition word_level :: "bool \<Rightarrow> string \<Rightarrow> int" where
  "word_level csh w =
     (if csh then
        (if strcmp_eq w ''if'' \<or> strcmp_eq w ''foreach'' \<or> strcmp_eq w ''switch''
            \<or> strcmp_eq w ''while'' then 1
         else if strcmp_eq w ''end'' \<or> strcmp_eq w ''endif'' \<or> strcmp_eq w ''endsw'' then - 1
         else 0)
      else
        (if strcmp_eq w ''if'' \<or> strcmp_eq w ''case'' \<or> strcmp_eq w ''do'' then 1
         else if strcmp_eq w ''fi'' \<or> strcmp_eq w ''esac'' \<or> strcmp_eq w ''done'' then - 1
         else 0))"

text \<open>Lines 835 to 856.\<close>

definition fold_word :: "FoldEnv \<Rightarrow> style \<Rightarrow> char \<Rightarrow> FoldState \<Rightarrow> FoldState" where
  "fold_word env sty c s =
     (if sty = SCE_SH_WORD then
        (let s1 = (if wordlen s < MAX_BASH_WORD_LEN
                   then s\<lparr>word := store (word s) (wordlen s) c, wordlen := wordlen s + 1\<rparr>
                   else s)
         in
         if styleNext s1 \<noteq> SCE_SH_WORD then
           (let w = store (word s1) (wordlen s1) NUL in
            s1\<lparr>word := w, wordlen := 0,
                levelCurrent := levelCurrent s1 + word_level (isCShell env) w\<rparr>)
         else s1)
      else s)"

text \<open>Lines 858 to 864.\<close>

definition fold_operator :: "style \<Rightarrow> char \<Rightarrow> FoldState \<Rightarrow> FoldState" where
  "fold_operator sty c s =
     (if sty = SCE_SH_OPERATOR then
        (if c = CHR ''{'' \<or> c = CHR ''['' then s\<lparr>levelCurrent := levelCurrent s + 1\<rparr>
         else if c = CHR ''}'' \<or> c = CHR '']'' then s\<lparr>levelCurrent := levelCurrent s - 1\<rparr>
         else s)
      else s)"

text \<open>Lines 865 to 880: here-documents.\<close>

definition fold_here :: "string \<Rightarrow> style list \<Rightarrow> int \<Rightarrow> style \<Rightarrow> char \<Rightarrow> FoldState \<Rightarrow> FoldState" where
  "fold_here doc sty i st c s =
     (if st = SCE_SH_HERE_DELIM then
        (if c = CHR ''<'' \<and> fchNext s = CHR ''<'' then
           (if SafeGetCharAt doc (i + 2) = CHR ''<'' then s\<lparr>skipHereCh := 1\<rparr>
            else if skipHereCh s = 0 then s\<lparr>levelCurrent := levelCurrent s + 1\<rparr>
            else s\<lparr>skipHereCh := 0\<rparr>)
         else s)
      else if st = SCE_SH_HERE_Q \<and> StyleAt sty (i + 1) = SCE_SH_DEFAULT
        then s\<lparr>levelCurrent := levelCurrent s - 1\<rparr>
      else s)"

text \<open>Lines 884 to 888: the level a line gets, with its flags.\<close>

definition line_level :: "bool \<Rightarrow> int \<Rightarrow> int \<Rightarrow> int \<Rightarrow> int" where
  "line_level compact lPrev lCurrent visible =
     (let lev = lPrev;
          lev1 = (if visible = 0 \<and> compact then lev OR SC_FOLDLEVELWHITEFLAG else lev)
      in if lCurrent > lPrev \<and> visible > 0 then lev1 OR SC_FOLDLEVELHEADERFLAG else lev1)"

text \<open>Lines 883 to 895: the end of a line.\<close>

definition fold_line_end :: "FoldEnv \<Rightarrow> FoldState \<Rightarrow> FoldState" where
  "fold_line_end env s =
     s\<lparr>levels := (levels s)(lineCurrent s :=
                    line_level (foldCompact env) (levelPrev s) (levelCurrent s) (visibleChars s)),
        lineCurrent := lineCurrent s + 1,
        levelPrev := levelCurrent s,
        visibleChars := 0\<rparr>"

text \<open>The end-of-line test of line 826, for the byte at \<open>i\<close>.\<close>

definition atEOL :: "string \<Rightarrow> int \<Rightarrow> bool" where
  "atEOL doc i =
     ((SafeGetCharAt doc i = CR \<and> SafeGetCharAt doc (i + 1) \<noteq> LF) \<or> SafeGetCharAt doc i = LF)"

text \<open>The body of the loop, lines 822 to 895, for the byte at \<open>i\<close>.\<close>

definition fold_char :: "FoldEnv \<Rightarrow> string \<Rightarrow> style list \<Rightarrow> int \<Rightarrow> FoldState \<Rightarrow> FoldState" where
  "fold_char env doc sty i s =
     (let c = fchNext s;
          st = styleNext s;
          s1 = s\<lparr>fchNext := SafeGetCharAt doc (i + 1), styleNext := StyleAt sty (i + 1)\<rparr>;
          eol = ((c = CR \<and> fchNext s1 \<noteq> LF) \<or> c = LF);
          s2 = fold_comment env eol s1;
          s3 = fold_word env st c s2;
          s4 = fold_operator st c s3;
          s5 = fold_here doc sty i st c s4;
          s6 = (if \<not> IsASpace c then s5\<lparr>visibleChars := visibleChars s5 + 1\<rparr> else s5)
      in if eol then fold_line_end env s6 else s6)"

function fold_loop ::
  "FoldEnv \<Rightarrow> string \<Rightarrow> style list \<Rightarrow> int \<Rightarrow> int \<Rightarrow> FoldState \<Rightarrow> FoldState" where
  "fold_loop env doc sty i endP s =
     (if i < endP then fold_loop env doc sty (i + 1) endP (fold_char env doc sty i s) else s)"
  by pat_completeness auto
termination
  by (relation "measure (\<lambda>(env, doc, sty, i, endP, s). nat (endP - i))") auto

declare fold_loop.simps [simp del]

text \<open>Lines 814 to 820: the variables before the loop.\<close>

definition fold_init :: "string \<Rightarrow> style list \<Rightarrow> (int \<Rightarrow> int) \<Rightarrow> int \<Rightarrow> FoldState" where
  "fold_init doc sty lv startPos =
     \<lparr>visibleChars = 0, skipHereCh = 0, lineCurrent = GetLine doc startPos,
      levelPrev = lv (GetLine doc startPos) AND SC_FOLDLEVELNUMBERMASK,
      levelCurrent = lv (GetLine doc startPos) AND SC_FOLDLEVELNUMBERMASK,
      fchNext = SafeGetCharAt doc startPos, styleNext = StyleAt sty startPos,
      word = replicate (nat (MAX_BASH_WORD_LEN + 1)) NUL, wordlen = 0, levels = lv\<rparr>"

text \<open>The fold pass; lines 897 to 899 give the next line its level and keep its flags.\<close>

definition FoldBashDoc ::
  "FoldEnv \<Rightarrow> string \<Rightarrow> style list \<Rightarrow> (int \<Rightarrow> int) \<Rightarrow> int \<Rightarrow> int \<Rightarrow> FoldState" where
  "FoldBashDoc env doc sty lv startPos len =
     (let s = fold_loop env doc sty startPos (startPos + len) (fold_init doc sty lv startPos);
          flagsNext = levels s (lineCurrent s) AND NOT SC_FOLDLEVELNUMBERMASK
      in s\<lparr>levels := (levels s)(lineCurrent s := levelPrev s OR flagsNext)\<rparr>)"

section \<open>Invariants of a pass\<close>

abbreviation (input) HD :: style where "HD \<equiv> SCE_SH_HERE_DELIM"

text \<open>The invariant of the delimiter buffer.\<close>

definition hd_inv :: "BashLexer \<Rightarrow> bool" where
  "hd_inv L =
     (\<not> Overrun (HereDoc L) \<and> int (length (Delimiter (HereDoc L))) = HERE_DELIM_MAX
      \<and> 0 \<le> DelimiterLength (HereDoc L)
      \<and> (state (sc L) = SCE_SH_HERE_DELIM \<and> State (HereDoc L) = 1
           \<longrightarrow> DelimiterLength (HereDoc L) < HERE_DELIM_MAX - 1))"

text \<open>The bound on the depth of the quote stack.\<close>

definition qs_inv :: "QuoteStackCls \<Rightarrow> bool" where
  "qs_inv q = (0 \<le> Depth q \<and> Depth q \<le> BASH_DELIM_STACK_MAX)"

text \<open>Cursor \<open>d\<close> holds the style bytes of cursor \<open>c\<close>, but for bytes given the style \<open>st\<close>.\<close>

definition only_style :: "style \<Rightarrow> StyleContext \<Rightarrow> StyleContext \<Rightarrow> bool" where
  "only_style st c d =
     (length (styles d) = length (styles c)
      \<and> (\<forall>i < length (styles c). styles d ! i = styles c ! i \<or> styles d ! i = st))"

text \<open>The pending run of cursor \<open>c\<close> (from \<open>startSeg\<close> up to the cursor) has the style \<open>st\<close>
  among the style bytes of cursor \<open>d\<close>.\<close>

definition run_styled :: "StyleContext \<Rightarrow> StyleContext \<Rightarrow> style \<Rightarrow> bool" where
  "run_styled c d st =
     (\<forall>i. startSeg c \<le> int i \<and> int i < currentPos c \<and> i < length (styles c)
          \<longrightarrow> styles d ! i = st)"

text \<open>The cursor is in the error style and no delimiter is being collected.\<close>

definition error_stuck :: "BashLexer \<Rightarrow> bool" where
  "error_stuck L = (state (sc L) = SCE_SH_ERROR \<and> State (HereDoc L) \<noteq> 1)"

text \<open>A concrete cursor for the examples: a pass over the whole of a document that has
  not been styled yet, before its first step.\<close>

definition cursor0 :: "string \<Rightarrow> StyleContext" where
  "cursor0 doc =
     StyleContext_init doc 0 (int (length doc)) SCE_SH_DEFAULT
       (replicate (length doc) SCE_SH_DEFAULT) (\<lambda>_. 0)"

text \<open>For the examples: the loop after \<open>n\<close> turns over a document with no keywords, and
  the state, in the turn after these, in which line 602 finds the lexer (after the switch).\<close>

primrec turns :: "nat \<Rightarrow> string \<Rightarrow> BashLexer" where
  "turns 0 doc = lexer_init (cursor0 doc)"
| "turns (Suc n) doc = loop_step doc [] (turns n doc)"

definition after_switch :: "nat \<Rightarrow> string \<Rightarrow> BashLexer" where
  "after_switch n doc =
     terminate_state doc [] (init_cmdStateNew (line_start_update doc (turns n doc)))"

text \<open>Line 305, \<^verbatim>\<open>keywordEnds\<close>: the character at the cursor is whitespace or a command
  delimiter.\<close>

definition keywordEnds :: "StyleContext \<Rightarrow> bool" where
  "keywordEnds c = (IsASpace (ch c) \<or> InList cmdDelimiter [ch c])"

section \<open>Lines of the fold pass\<close>

text \<open>The loop reads one byte and one style ahead: before the turn for the byte at \<open>i\<close>, \<^verbatim>\<open>chNext\<close>
  and \<^verbatim>\<open>styleNext\<close> hold the byte and the style at \<open>i\<close>.\<close>

definition synced :: "string \<Rightarrow> style list \<Rightarrow> int \<Rightarrow> FoldState \<Rightarrow> bool" where
  "synced doc sty i s = (fchNext s = SafeGetCharAt doc i \<and> styleNext s = StyleAt sty i)"

text \<open>Some byte of the positions \<open>a\<close> to \<open>e\<close> is not white space.\<close>

definition visible_in :: "string \<Rightarrow> int \<Rightarrow> int \<Rightarrow> bool" where
  "visible_in doc a e = (\<exists>k. a \<le> k \<and> k \<le> e \<and> \<not> IsASpace (SafeGetCharAt doc k))"

text \<open>A line of \<open>n\<close> closing braces, then an empty line.\<close>

definition closers :: "nat \<Rightarrow> string" where
  "closers n = replicate n (CHR ''}'') @ [LF, LF]"

text \<open>The styles of that text: every brace is an operator.\<close>

definition closers_styles :: "nat \<Rightarrow> style list" where
  "closers_styles n = replicate n SCE_SH_OPERATOR @ [SCE_SH_DEFAULT, SCE_SH_DEFAULT]"

text \<open>The default properties: no comment folding, compact folding, no C shell.\<close>

definition plain_env :: FoldEnv where
  "plain_env = \<lparr>foldComment = False, foldCompact = True, isCShell = False,
                 IsCommentLine = (\<lambda>_. False)\<rparr>"

text \<open>The levels of a document that has not been folded: \<^verbatim>\<open>SC_FOLDLEVELBASE\<close> on every line.\<close>

definition base_levels :: "int \<Rightarrow> int" where
  "base_levels l = SC_FOLDLEVELBASE"

text \<open>A block opened on the first line, an empty line, and the closing brace.\<close>

definition braces_example :: string where
  "braces_example = [CHR ''{'', LF, LF, CHR ''}'', LF]"

text \<open>The styles of that text.\<close>

definition braces_styles :: "style list" where
  "braces_styles = [SCE_SH_OPERATOR, SCE_SH_DEFAULT, SCE_SH_DEFAULT, SCE_SH_OPERATOR,
                    SCE_SH_DEFAULT]"

text \<open>The state of the loop over that text before the turn for the byte at \<open>p\<close>.\<close>

definition braces_fold_at :: "int \<Rightarrow> FoldState" where
  "braces_fold_at p = fold_loop plain_env braces_example braces_styles 0 p
                        (fold_init braces_example braces_styles base_levels 0)"

section \<open>Lines of the lexing pass\<close>

text \<open>The test of \<^verbatim>\<open>GetNextChar\<close> for the last byte of a line, at position \<open>p\<close>.\<close>

definition line_end_at :: "string \<Rightarrow> int \<Rightarrow> bool" where
  "line_end_at doc p =
     (if GetLine doc p < GetLine doc (int (length doc))
      then p \<ge> LineStart doc (GetLine doc p + 1) - 1
      else p \<ge> LineStart doc (GetLine doc p + 1))"

text \<open>What the cursor knows agrees with the document: \<open>currentLine\<close> is the line of the
  cursor, \<open>lineStartNext\<close> the start of the next one, \<open>atLineEnd\<close> what \<^verbatim>\<open>GetNextChar\<close> computes
  from them while the cursor is inside the range, \<open>atLineStart\<close> holds only at the start of a
  line, \<open>ch\<close> and \<open>chNext\<close> are the bytes at the cursor and after it, and the pending run
  begins at or before the cursor.  The range of the pass ends inside the document.\<close>

definition line_inv :: "string \<Rightarrow> StyleContext \<Rightarrow> bool" where
  "line_inv doc c =
     (0 \<le> currentPos c \<and> endPos c \<le> int (length doc)
      \<and> currentLine c = GetLine doc (currentPos c)
      \<and> lineStartNext c = LineStart doc (currentLine c + 1)
      \<and> (currentPos c < endPos c \<longrightarrow>
           atLineEnd c = (if currentLine c < GetLine doc (int (length doc))
                          then currentPos c \<ge> lineStartNext c - 1
                          else currentPos c \<ge> lineStartNext c))
      \<and> (atLineStart c \<longrightarrow> currentPos c \<in> set (line_starts doc))
      \<and> (currentPos c < endPos c \<longrightarrow>
           ch c = SafeGetCharAt doc (currentPos c)
           \<and> chNext c = SafeGetCharAt doc (currentPos c + 1))
      \<and> startSeg c \<le> currentPos c)"

text \<open>Cursor \<open>d\<close> has the line states of cursor \<open>c\<close>, and agrees with the document about lines
  if \<open>c\<close> does.\<close>

definition lkeep :: "string \<Rightarrow> StyleContext \<Rightarrow> StyleContext \<Rightarrow> bool" where
  "lkeep doc c d = (lineState d = lineState c \<and> (line_inv doc c \<longrightarrow> line_inv doc d))"

text \<open>The lexer with which \<^verbatim>\<open>ColouriseBashDoc\<close> enters its loop: the cursor at the position the
  resolver of lines 245 to 255 has chosen, in the default style.\<close>

definition pass_start :: "string \<Rightarrow> int \<Rightarrow> int \<Rightarrow> style list \<Rightarrow> (int \<Rightarrow> int) \<Rightarrow> BashLexer" where
  "pass_start doc startPos len st ls =
     lexer_init (StyleContext_init doc (restart_pos doc ls startPos)
       (startPos + len - restart_pos doc ls startPos) SCE_SH_DEFAULT st ls)"

text \<open>A string in double quotes that goes over two lines.\<close>

definition two_line_string :: string where
  "two_line_string = [DQUOTE, CHR ''a'', LF, CHR ''b'', DQUOTE, LF]"

text \<open>How a line ends: with LF, with CR LF, or with a CR that no LF follows; \<open>rest\<close> is the
  text after the line.\<close>

definition line_ends :: "string \<Rightarrow> string \<Rightarrow> bool" where
  "line_ends tm rest =
     (tm = [LF] \<or> tm = [CR, LF] \<or> (tm = [CR] \<and> (rest = [] \<or> hd rest \<noteq> LF)))"

text \<open>A here-document announced with \<^verbatim>\<open><<-\<close> whose quoted delimiter begins with a tab, and the
  line of a tab and the delimiter; a here-document with the delimiter \<^verbatim>\<open>E\<close> and the line of a
  tab and \<^verbatim>\<open>E\<close>, announced with \<^verbatim>\<open><<-\<close> and with \<^verbatim>\<open><<\<close>.\<close>

definition tab_delimiter_example :: string where
  "tab_delimiter_example =
     [CHR ''<'', CHR ''<'', CHR ''-'', DQUOTE, TAB, CHR ''E'', DQUOTE, LF,
      TAB, TAB, CHR ''E'', LF, CHR ''x'', LF]"

definition indented_example :: string where
  "indented_example =
     [CHR ''<'', CHR ''<'', CHR ''-'', CHR ''E'', LF, TAB, CHR ''E'', LF, CHR ''x'', LF]"

definition plain_example :: string where
  "plain_example = [CHR ''<'', CHR ''<'', CHR ''E'', LF, TAB, CHR ''E'', LF, CHR ''x'', LF]"

section \<open>What the steps of the cursor keep\<close>

lemma state_ColourTo [simp]: "state (ColourTo p a c) = state c"
  by (simp add: ColourTo_def)
lemma state_SetState [simp]: "state (SetState doc st c) = st"
  by (simp add: SetState_def)
lemma state_ChangeState [simp]: "state (ChangeState st c) = st"
  by (simp add: ChangeState_def)
lemma state_Forward [simp]: "state (Forward doc c) = state c"
  by (simp add: Forward_def GetNextChar_def)
lemma state_ForwardSetState [simp]: "state (ForwardSetState doc st c) = st"
  by (simp add: ForwardSetState_def)
lemma state_ForwardN [simp]: "state (ForwardN doc n c) = state c"
  by (induction n arbitrary: c) simp_all
lemma state_SetLineState [simp]: "state (SetLineState ln v c) = state c"
  by (simp add: SetLineState_def)
lemma state_skip_tabs [simp]: "state (fst (skip_tabs doc c n)) = state c"
  by (induction doc c n rule: skip_tabs.induct) (subst skip_tabs.simps, simp)
lemma state_to_line_end [simp]: "state (to_line_end doc c) = state c"
  by (induction doc c rule: to_line_end.induct) (subst to_line_end.simps, simp)

lemma line_start_update_keeps [simp]:
  "HereDoc (line_start_update doc L) = HereDoc L"
  "QuoteStack (line_start_update doc L) = QuoteStack L"
  "state (sc (line_start_update doc L)) = state (sc L)"
  by (simp_all add: line_start_update_def Let_def)

lemma init_cmdStateNew_keeps [simp]:
  "HereDoc (init_cmdStateNew L) = HereDoc L"
  "QuoteStack (init_cmdStateNew L) = QuoteStack L"
  by (simp_all add: init_cmdStateNew_def)

lemma classify_word_keeps [simp]:
  "HereDoc (classify_word kw s e L) = HereDoc L"
  "QuoteStack (classify_word kw s e L) = QuoteStack L"
  by (simp_all add: classify_word_def)

lemma case_HERE_Q_keeps:
  "HereDoc (case_HERE_Q doc L) = HereDoc L"
  "QuoteStack (case_HERE_Q doc L) = QuoteStack L"
  "state (sc L) \<noteq> HD \<Longrightarrow> state (sc (case_HERE_Q doc L)) \<noteq> HD"
proof -
  obtain c2 n where e: "skip_tabs doc (SetState doc SCE_SH_HERE_Q (sc L)) 0 = (c2, n)"
    by (cases "skip_tabs doc (SetState doc SCE_SH_HERE_Q (sc L)) 0")
  have s2: "state c2 = SCE_SH_HERE_Q"
    using state_skip_tabs [of doc "SetState doc SCE_SH_HERE_Q (sc L)" 0] e by simp
  show "HereDoc (case_HERE_Q doc L) = HereDoc L"
    by (simp add: case_HERE_Q_def Let_def e)
  show "QuoteStack (case_HERE_Q doc L) = QuoteStack L"
    by (simp add: case_HERE_Q_def Let_def e)
  show "state (sc L) \<noteq> HD \<Longrightarrow> state (sc (case_HERE_Q doc L)) \<noteq> HD"
    by (simp add: case_HERE_Q_def Let_def e s2)
qed

lemma terminate_state_HereDoc:
  assumes "state (sc L) \<noteq> HD"
  shows "HereDoc (terminate_state doc kw L) = HereDoc L"
    and "state (sc (terminate_state doc kw L)) \<noteq> HD"
  using assms
  by (cases "state (sc L)";
      simp add: terminate_state_def case_OPERATOR_def case_WORD_def case_IDENTIFIER_def
        case_NUMBER_def number_end_def case_COMMENTLINE_def case_HERE_Q_keeps case_SCALAR_def
        case_STRING_def string_nesting_def forward_push_def case_PARAM_def case_CHARACTER_def
        Let_def)+


lemma enter_number_keeps [simp]:
  "HereDoc (enter_number doc L) = HereDoc L"
  "QuoteStack (enter_number doc L) = QuoteStack L"
  "state (sc (enter_number doc L)) = SCE_SH_NUMBER"
  by (simp_all add: enter_number_def Let_def)

lemma enter_hash_keeps [simp]:
  "HereDoc (enter_hash doc sp L) = HereDoc L"
  "QuoteStack (enter_hash doc sp L) = QuoteStack L"
  "state (sc (enter_hash doc sp L)) \<noteq> HD"
  "state (sc (enter_hash doc sp L)) \<noteq> SCE_SH_ERROR"
  by (simp_all add: enter_hash_def Let_def)

lemma enter_dollar_keeps [simp]:
  "HereDoc (enter_dollar doc L) = HereDoc L"
  "state (sc (enter_dollar doc L)) \<noteq> HD"
  "state (sc (enter_dollar doc L)) \<noteq> SCE_SH_ERROR"
  "Depth (QuoteStack (enter_dollar doc L)) = Depth (QuoteStack L)"
  "CountStack (QuoteStack (enter_dollar doc L)) = CountStack (QuoteStack L)"
  "UpStack (QuoteStack (enter_dollar doc L)) = UpStack (QuoteStack L)"
  "StyleStack (QuoteStack (enter_dollar doc L)) = StyleStack (QuoteStack L)"
  by (simp_all add: enter_dollar_def Let_def Start_def)

lemma open_expression_keeps [simp]:
  "HereDoc (open_expression doc L) = HereDoc L"
  "QuoteStack (open_expression doc L) = QuoteStack L"
  "state (sc (open_expression doc L)) = state (sc L)"
  by (simp_all add: open_expression_def)

lemma close_expression_keeps [simp]:
  "HereDoc (close_expression doc L) = HereDoc L"
  "QuoteStack (close_expression doc L) = QuoteStack L"
  "state (sc (close_expression doc L)) = state (sc L)"
  by (simp_all add: close_expression_def)

lemma command_delimiter_keeps [simp]:
  "HereDoc (command_delimiter doc L) = HereDoc L"
  "QuoteStack (command_delimiter doc L) = QuoteStack L"
  "state (sc (command_delimiter doc L)) = state (sc L)"
  by (simp_all add: command_delimiter_def Let_def)

lemma enter_operator_keeps [simp]:
  "HereDoc (enter_operator doc L) = HereDoc L"
  "QuoteStack (enter_operator doc L) = QuoteStack L"
  "state (sc (enter_operator doc L)) \<noteq> HD"
  "state (sc (enter_operator doc L)) \<noteq> SCE_SH_ERROR"
  by (simp_all add: enter_operator_def Let_def)

lemma enter_here_delim_keeps [simp]:
  "State (HereDoc (enter_here_delim doc L)) = 0"
  "Overrun (HereDoc (enter_here_delim doc L)) = Overrun (HereDoc L)"
  "Delimiter (HereDoc (enter_here_delim doc L)) = Delimiter (HereDoc L)"
  "DelimiterLength (HereDoc (enter_here_delim doc L)) = DelimiterLength (HereDoc L)"
  "QuoteStack (enter_here_delim doc L) = QuoteStack L"
  "state (sc (enter_here_delim doc L)) = HD"
  by (simp_all add: enter_here_delim_def Let_def)

lemma length_store [simp]: "length (store xs i v) = length xs"
  by (simp add: store_def)

lemma hd_inv_here_delim_announced:
  "hd_inv L \<Longrightarrow> hd_inv (here_delim_announced doc L)"
  by (simp add: hd_inv_def here_delim_announced_def Let_def Delimiter_write_def in_bounds_def)

lemma hd_inv_here_delim_collect:
  "hd_inv L \<Longrightarrow> state (sc L) = HD \<Longrightarrow> State (HereDoc L) = 1
   \<Longrightarrow> hd_inv (here_delim_collect doc L)"
  by (auto simp: hd_inv_def here_delim_collect_def collect_char_def Let_def Append_def
      Delimiter_write_def in_bounds_def)

lemma hd_inv_terminate_state: "hd_inv L \<Longrightarrow> hd_inv (terminate_state doc kw L)"
proof (cases "state (sc L) = HD")
  case True
  assume "hd_inv L"
  then show ?thesis
    using True hd_inv_here_delim_announced [of L doc] hd_inv_here_delim_collect [of L doc]
    by (simp add: terminate_state_def case_HERE_DELIM_def)
next
  case False
  assume "hd_inv L"
  then show ?thesis
    using terminate_state_HereDoc [OF False, of doc kw] by (simp add: hd_inv_def)
qed

lemma hd_inv_here_doc_line_end: "hd_inv L \<Longrightarrow> hd_inv (here_doc_line_end doc L)"
  by (simp add: hd_inv_def here_doc_line_end_def Let_def)

lemma update_cmdState_keeps [simp]:
  "HereDoc (update_cmdState sp L) = HereDoc L"
  "QuoteStack (update_cmdState sp L) = QuoteStack L"
  by (simp_all add: update_cmdState_def)

lemma hd_inv_sc_only:
  "hd_inv L \<Longrightarrow> HereDoc L' = HereDoc L \<Longrightarrow> state (sc L') = state (sc L) \<Longrightarrow> hd_inv L'"
  by (simp add: hd_inv_def)

lemma hd_inv_enter_state: "hd_inv L \<Longrightarrow> hd_inv (enter_state doc sp L)"
  by (simp add: hd_inv_def enter_state_def Let_def)

lemma hd_inv_loop_step: "hd_inv L \<Longrightarrow> hd_inv (loop_step doc kw L)"
proof -
  assume a: "hd_inv L"
  have 1: "hd_inv (init_cmdStateNew (line_start_update doc L))"
    using a by (simp add: hd_inv_def)
  show ?thesis
    unfolding loop_step_def loop_body_def Let_def
    by (rule hd_inv_sc_only [OF hd_inv_enter_state
          [OF hd_inv_sc_only [OF hd_inv_here_doc_line_end [OF hd_inv_terminate_state [OF 1]]]]])
       simp_all
qed

lemma hd_inv_init: "hd_inv (lexer_init c)"
  by (simp add: hd_inv_def lexer_init_def HereDoc_init_def)

lemma hd_inv_reach: "reach doc kw L0 L \<Longrightarrow> hd_inv L0 \<Longrightarrow> hd_inv L"
  by (induction rule: reach.induct) (simp_all add: hd_inv_loop_step)

lemma reach_lex_loop: "reach doc kw L0 L \<Longrightarrow> reach doc kw L0 (lex_loop doc kw L)"
proof (induction doc kw L rule: lex_loop.induct)
  case (1 doc kw L)
  show ?case
  proof (cases "More (sc L)")
    case True
    then show ?thesis
      using 1 by (subst lex_loop.simps) (simp add: reach_step)
  next
    case False
    then show ?thesis using 1(2) by (subst lex_loop.simps) simp
  qed
qed

lemma here_delim_collect_overflow:
  "DelimiterLength (HereDoc (here_delim_collect doc L)) \<ge> HERE_DELIM_MAX - 1
   \<Longrightarrow> State (HereDoc (here_delim_collect doc L)) = 0
       \<and> state (sc (here_delim_collect doc L)) = SCE_SH_ERROR"
  by (cases "HERE_DELIM_MAX - 1 \<le> DelimiterLength (HereDoc (collect_char doc L))")
     (simp_all add: here_delim_collect_def Let_def)

lemma qs_inv_Start: "qs_inv q \<Longrightarrow> qs_inv (Start u s q)"
  by (simp add: qs_inv_def Start_def)
lemma qs_inv_Push: "qs_inv q \<Longrightarrow> qs_inv (Push u s q)"
  by (simp add: qs_inv_def Push_def)
lemma qs_inv_Pop: "qs_inv q \<Longrightarrow> qs_inv (Pop q)"
  by (simp add: qs_inv_def Pop_def)
lemma qs_inv_Count [simp]: "qs_inv (q\<lparr>Count := n\<rparr>) = qs_inv q"
  by (simp add: qs_inv_def)

lemma Push_full: "Depth q \<ge> BASH_DELIM_STACK_MAX \<Longrightarrow> Push u s q = q"
  by (simp add: Push_def)

lemma qs_inv_string_nesting: "qs_inv (QuoteStack L) \<Longrightarrow> qs_inv (QuoteStack (string_nesting doc L))"
  by (simp add: string_nesting_def forward_push_def Let_def qs_inv_Push)

lemma qs_inv_case_STRING: "qs_inv (QuoteStack L) \<Longrightarrow> qs_inv (QuoteStack (case_STRING doc L))"
  by (simp add: case_STRING_def Let_def qs_inv_string_nesting qs_inv_Pop)

lemma terminate_state_QuoteStack:
  "qs_inv (QuoteStack L) \<Longrightarrow> qs_inv (QuoteStack (terminate_state doc kw L))"
  by (cases "state (sc L)";
      simp add: terminate_state_def case_OPERATOR_def case_WORD_def case_IDENTIFIER_def
        case_NUMBER_def number_end_def case_COMMENTLINE_def case_HERE_Q_keeps case_SCALAR_def
        qs_inv_case_STRING case_PARAM_def case_CHARACTER_def case_HERE_DELIM_def
        here_delim_announced_def here_delim_collect_def collect_char_def Let_def)

lemma here_doc_line_end_QuoteStack [simp]:
  "QuoteStack (here_doc_line_end doc L) = QuoteStack L"
  by (simp add: here_doc_line_end_def Let_def)

lemma enter_state_QuoteStack:
  "qs_inv (QuoteStack L) \<Longrightarrow> qs_inv (QuoteStack (enter_state doc sp L))"
  by (simp add: enter_state_def Let_def qs_inv_Start) (simp add: qs_inv_def)

lemma qs_inv_loop_step: "qs_inv (QuoteStack L) \<Longrightarrow> qs_inv (QuoteStack (loop_step doc kw L))"
proof -
  assume a: "qs_inv (QuoteStack L)"
  have 1: "qs_inv (QuoteStack (init_cmdStateNew (line_start_update doc L)))"
    using a by simp
  have 2: "qs_inv (QuoteStack (update_cmdState sp (here_doc_line_end doc
              (terminate_state doc kw (init_cmdStateNew (line_start_update doc L))))))" for sp
    using terminate_state_QuoteStack [OF 1] by simp
  show ?thesis
    unfolding loop_step_def loop_body_def Let_def
    using enter_state_QuoteStack [OF 2] by simp
qed

lemma qs_inv_reach: "reach doc kw L0 L \<Longrightarrow> qs_inv (QuoteStack L0) \<Longrightarrow> qs_inv (QuoteStack L)"
  by (induction rule: reach.induct) (simp_all add: qs_inv_loop_step)

lemma qs_inv_init: "qs_inv (QuoteStack (lexer_init c))"
  by (simp add: qs_inv_def lexer_init_def QuoteStack_init_def)

lemma length_fill_styles [simp]: "length (fill_styles xs a b v) = length xs"
  by (simp add: fill_styles_def)
lemma nth_fill_styles:
  "i < length xs \<Longrightarrow> fill_styles xs a b v ! i = (if a \<le> int i \<and> int i \<le> b then v else xs ! i)"
  by (simp add: fill_styles_def)

lemma only_style_refl [simp]: "only_style st c c"
  by (simp add: only_style_def)
lemma only_style_trans: "only_style st a b \<Longrightarrow> only_style st b c \<Longrightarrow> only_style st a c"
  by (fastforce simp: only_style_def)
lemma styles_Forward [simp]: "styles (Forward doc c) = styles c"
  by (simp add: Forward_def GetNextChar_def)
lemma only_style_ColourTo: "only_style a c (ColourTo p a c)"
  by (simp add: only_style_def ColourTo_def nth_fill_styles)
lemma only_style_SetState: "only_style (state c) c (SetState doc st c)"
  using only_style_ColourTo [of "state c" c] by (simp add: SetState_def only_style_def)
lemma only_style_Forward [simp]: "only_style st c (Forward doc c)"
  by (simp add: only_style_def)
lemma only_style_ForwardSetState: "only_style (state c) c (ForwardSetState doc st c)"
  using only_style_SetState [of "Forward doc c" doc st]
  by (simp add: ForwardSetState_def only_style_def)

lemma string_nesting_styles:
  "styles (sc (string_nesting doc L)) = styles (sc L)"
  "state (sc (string_nesting doc L)) = state (sc L)"
  by (simp_all add: string_nesting_def forward_push_def Let_def)

lemma case_STRING_styles:
  "only_style (state (sc L)) (sc L) (sc (case_STRING doc L))"
  "state (sc (case_STRING doc L)) = state (sc L) \<or> state (sc (case_STRING doc L)) = SCE_SH_DEFAULT"
  by (simp_all add: case_STRING_def Let_def only_style_ForwardSetState string_nesting_styles)
     (simp_all add: only_style_def string_nesting_styles)

lemma run_styled_SetState:
  "currentPos c \<le> int (length doc) \<Longrightarrow> run_styled c (SetState doc st c) (state c)"
  by (auto simp: run_styled_def SetState_def ColourTo_def nth_fill_styles)

lemma run_styled_error:
  "currentPos c \<le> int (length doc) \<Longrightarrow>
   run_styled c (SetState doc st (ChangeState SCE_SH_ERROR c)) SCE_SH_ERROR"
  using run_styled_SetState [of "ChangeState SCE_SH_ERROR c" doc st]
  by (simp add: run_styled_def ChangeState_def)

lemma collect_char_quoted:
  "Quoted (HereDoc M) \<Longrightarrow> state (sc M) = SCE_SH_HERE_DELIM \<Longrightarrow>
   state (sc (collect_char doc M)) \<noteq> SCE_SH_HERE_DELIM \<Longrightarrow> ch (sc M) = HQuote (HereDoc M)"
  by (simp add: collect_char_def Let_def split: if_splits)

lemma styles_SetLineState [simp]: "styles (SetLineState ln v c) = styles c"
  by (simp add: SetLineState_def)

lemma line_start_update_styles [simp]: "styles (sc (line_start_update doc L)) = styles (sc L)"
  by (simp add: line_start_update_def Let_def)

lemma error_stuck_loop_step:
  assumes "error_stuck L"
  shows "error_stuck (loop_step doc kw L) \<and> styles (sc (loop_step doc kw L)) = styles (sc L)"
proof -
  let ?L1 = "init_cmdStateNew (line_start_update doc L)"
  have s1: "state (sc ?L1) = SCE_SH_ERROR" "State (HereDoc ?L1) \<noteq> 1"
    using assms by (simp_all add: error_stuck_def)
  have t: "terminate_state doc kw ?L1 = ?L1"
    using s1 by (simp add: terminate_state_def)
  have h: "here_doc_line_end doc ?L1 = ?L1"
    using s1 by (simp add: here_doc_line_end_def)
  have u: "update_cmdState SCE_SH_ERROR ?L1 = ?L1"
    using s1 by (simp add: update_cmdState_def)
  have e: "enter_state doc SCE_SH_ERROR ?L1 = ?L1"
    using s1 by (simp add: enter_state_def)
  have "loop_body doc kw L = ?L1"
    using assms t h u e by (simp add: loop_body_def Let_def error_stuck_def)
  then show ?thesis
    using s1 by (simp add: loop_step_def Let_def error_stuck_def)
qed

lemma error_stuck_reach:
  "reach doc kw M N \<Longrightarrow> error_stuck M \<Longrightarrow> error_stuck N \<and> styles (sc N) = styles (sc M)"
  by (induction rule: reach.induct) (simp_all add: error_stuck_loop_step)

lemma keywordEnds_not_word:
  "keywordEnds c \<Longrightarrow> \<not> Contains setWord (ch c) \<and> ch c \<noteq> CHR ''+''"
  by (auto simp: keywordEnds_def IsASpace_def Contains_def InList_def c_str_def cmdDelimiter_def
      setWord_def setAlphaNum_def setAlpha_def setDigits_def split: if_splits)

lemma strcmp_test:
  "strcmp_eq s ''test'' \<Longrightarrow>
   \<not> strcmp_eq s ''in'' \<and> \<not> strcmp_eq s ''do'' \<and> \<not> strcmp_eq s ''dnl''"
  by (simp add: strcmp_eq_def c_str_def)

lemma getBashNumberBase_loop_count:
  "fst (getBashNumberBase_loop s i b) = i + int (length s)"
  by (induction s arbitrary: i b) simp_all

lemma getBashNumberBase_long:
  "length (c_str s) > 2 \<Longrightarrow> getBashNumberBase s = BASH_BASE_ERROR"
proof -
  assume a: "length (c_str s) > 2"
  obtain i b where e: "getBashNumberBase_loop (c_str s) 0 0 = (i, b)"
    by (cases "getBashNumberBase_loop (c_str s) 0 0")
  have "i = int (length (c_str s))"
    using getBashNumberBase_loop_count [of "c_str s" 0 0] e by simp
  then show ?thesis using a e by (simp add: getBashNumberBase_def)
qed

lemma getBashNumberBase_examples:
  "getBashNumberBase ''2'' = 2" "getBashNumberBase ''36'' = 36" "getBashNumberBase ''64'' = 64"
  "getBashNumberBase ''65'' = BASH_BASE_ERROR" "getBashNumberBase ''99'' = BASH_BASE_ERROR"
  by code_simp+

lemma fold_digit_letters:
  "in_range CHR ''A'' CHR ''Z'' c \<Longrightarrow> b \<le> 36 \<Longrightarrow>
     fold_digit b (translateBashDigit c) = char_code c - char_code CHR ''A'' + 10"
  "in_range CHR ''a'' CHR ''z'' c \<Longrightarrow>
     fold_digit b (translateBashDigit c) = char_code c - char_code CHR ''a'' + 10"
  "b > 36 \<Longrightarrow> fold_digit b d = d"
  by (auto simp: fold_digit_def translateBashDigit_def in_range_def char_code_def)

lemma number_end_styles:
  "currentPos (sc L) \<le> int (length doc) \<Longrightarrow>
   state (sc (number_end doc L)) = SCE_SH_DEFAULT
   \<and> run_styled (sc L) (sc (number_end doc L))
        (if numBase L = BASH_BASE_ERROR then SCE_SH_ERROR else state (sc L))"
  using run_styled_SetState [of "sc L" doc SCE_SH_DEFAULT]
    run_styled_error [of "sc L" doc SCE_SH_DEFAULT]
  by (simp add: number_end_def Let_def)

lemma char_code_NUL [simp]: "char_code NUL = 0"
  by (simp add: char_code_def)

lemma getBashNumberBase_digits:
  assumes "in_range CHR ''0'' CHR ''9'' a" and "in_range CHR ''0'' CHR ''9'' b"
  shows "getBashNumberBase [a] = char_code a - char_code CHR ''0''"
    and "getBashNumberBase [a, b]
         = (if 10 * (char_code a - char_code CHR ''0'') + (char_code b - char_code CHR ''0'') > 64
            then BASH_BASE_ERROR
            else 10 * (char_code a - char_code CHR ''0'') + (char_code b - char_code CHR ''0''))"
proof -
  have r: "48 \<le> char_code a" "char_code a \<le> 57" "48 \<le> char_code b" "char_code b \<le> 57"
    using assms by (simp_all add: in_range_def char_code_def)
  have n: "a \<noteq> NUL" "b \<noteq> NUL"
    using r by auto
  have s: "schar_code a = char_code a" "schar_code b = char_code b"
    using r by (simp_all add: schar_code_def)
  have z: "char_code CHR ''0'' = 48" by (simp add: char_code_def)
  show "getBashNumberBase [a] = char_code a - char_code CHR ''0''"
    using r n s by (simp add: getBashNumberBase_def c_str_def z)
  show "getBashNumberBase [a, b]
         = (if 10 * (char_code a - char_code CHR ''0'') + (char_code b - char_code CHR ''0'') > 64
            then BASH_BASE_ERROR
            else 10 * (char_code a - char_code CHR ''0'') + (char_code b - char_code CHR ''0''))"
    using r n s by (simp add: getBashNumberBase_def c_str_def z)
qed

lemma IsADigit_in_range: "IsADigit c \<Longrightarrow> in_range CHR ''0'' CHR ''9'' c"
  by (auto simp: IsADigit_def Contains_def setDigits_def in_range_def char_code_def)

lemma enter_number_mode:
  "state (sc (enter_number doc L)) = SCE_SH_NUMBER
   \<and> numBase (enter_number doc L)
       = (if ch (sc L) = CHR ''0''
             \<and> (chNext (sc L) = CHR ''x'' \<or> chNext (sc L) = CHR ''X'' \<or> IsADigit (chNext (sc L)))
          then BASH_BASE_HEX else BASH_BASE_DECIMAL)"
  by (auto simp: enter_number_def Let_def SetState_def ColourTo_def Forward_def GetNextChar_def)

section \<open>The fold loop, line by line\<close>

lemma fold_parts_keep [simp]:
  "visibleChars (fold_comment env b s) = visibleChars s"
  "lineCurrent (fold_comment env b s) = lineCurrent s"
  "levelPrev (fold_comment env b s) = levelPrev s"
  "levels (fold_comment env b s) = levels s"
  "fchNext (fold_comment env b s) = fchNext s"
  "styleNext (fold_comment env b s) = styleNext s"
  "visibleChars (fold_word env st c s) = visibleChars s"
  "lineCurrent (fold_word env st c s) = lineCurrent s"
  "levelPrev (fold_word env st c s) = levelPrev s"
  "levels (fold_word env st c s) = levels s"
  "fchNext (fold_word env st c s) = fchNext s"
  "styleNext (fold_word env st c s) = styleNext s"
  "visibleChars (fold_operator st c s) = visibleChars s"
  "lineCurrent (fold_operator st c s) = lineCurrent s"
  "levelPrev (fold_operator st c s) = levelPrev s"
  "levels (fold_operator st c s) = levels s"
  "fchNext (fold_operator st c s) = fchNext s"
  "styleNext (fold_operator st c s) = styleNext s"
  "visibleChars (fold_here doc sty i st c s) = visibleChars s"
  "lineCurrent (fold_here doc sty i st c s) = lineCurrent s"
  "levelPrev (fold_here doc sty i st c s) = levelPrev s"
  "levels (fold_here doc sty i st c s) = levels s"
  "fchNext (fold_here doc sty i st c s) = fchNext s"
  "styleNext (fold_here doc sty i st c s) = styleNext s"
  by (simp_all add: fold_comment_def fold_word_def fold_operator_def fold_here_def Let_def)

lemma fold_char_inside:
  assumes "synced doc sty i s" and "\<not> atEOL doc i"
  shows "synced doc sty (i + 1) (fold_char env doc sty i s)"
    and "lineCurrent (fold_char env doc sty i s) = lineCurrent s"
    and "levels (fold_char env doc sty i s) = levels s"
    and "levelPrev (fold_char env doc sty i s) = levelPrev s"
    and "visibleChars (fold_char env doc sty i s)
         = visibleChars s + (if IsASpace (SafeGetCharAt doc i) then 0 else 1)"
  using assms by (auto simp: fold_char_def synced_def atEOL_def Let_def)

lemma fold_char_line_end:
  assumes "synced doc sty i s" and "atEOL doc i"
  shows "synced doc sty (i + 1) (fold_char env doc sty i s)"
    and "lineCurrent (fold_char env doc sty i s) = lineCurrent s + 1"
    and "levels (fold_char env doc sty i s) (lineCurrent s)
         = line_level (foldCompact env) (levelPrev s) (levelPrev (fold_char env doc sty i s))
             (visibleChars s)"
    and "visibleChars (fold_char env doc sty i s) = 0"
proof -
  have sp: "IsASpace (SafeGetCharAt doc i)"
    using assms(2) by (auto simp: atEOL_def IsASpace_def Contains_def)
  show "synced doc sty (i + 1) (fold_char env doc sty i s)"
    and "lineCurrent (fold_char env doc sty i s) = lineCurrent s + 1"
    and "levels (fold_char env doc sty i s) (lineCurrent s)
         = line_level (foldCompact env) (levelPrev s) (levelPrev (fold_char env doc sty i s))
             (visibleChars s)"
    and "visibleChars (fold_char env doc sty i s) = 0"
    using assms sp
    by (auto simp: fold_char_def fold_line_end_def synced_def atEOL_def Let_def)
qed

lemma fold_loop_inside:
  assumes "synced doc sty a s" and "\<forall>k. a \<le> k \<and> k < e \<longrightarrow> \<not> atEOL doc k" and "a \<le> e"
    and "0 \<le> visibleChars s"
  shows "synced doc sty e (fold_loop env doc sty a e s)
       \<and> lineCurrent (fold_loop env doc sty a e s) = lineCurrent s
       \<and> levels (fold_loop env doc sty a e s) = levels s
       \<and> levelPrev (fold_loop env doc sty a e s) = levelPrev s
       \<and> 0 \<le> visibleChars (fold_loop env doc sty a e s)
       \<and> (visibleChars (fold_loop env doc sty a e s) > 0
            \<longleftrightarrow> visibleChars s > 0 \<or> visible_in doc a (e - 1))"
  using assms
proof (induction env doc sty a e s rule: fold_loop.induct)
  case (1 env doc sty i endP s)
  show ?case
  proof (cases "i < endP")
    case False
    then have ie: "i = endP" using 1(4) by simp
    have unf0: "fold_loop env doc sty i endP s = s"
      using False by (subst fold_loop.simps) simp
    have "\<not> visible_in doc i (endP - 1)"
      using ie by (auto simp: visible_in_def)
    then show ?thesis
      unfolding unf0 using 1(2,5) ie by simp
  next
    case True
    let ?s = "fold_char env doc sty i s"
    have ne: "\<not> atEOL doc i" using 1(3) True by simp
    note st = fold_char_inside [OF 1(2) ne, of env]
    have v: "0 \<le> visibleChars ?s" using st(5) 1(5) by simp
    have IH: "synced doc sty endP (fold_loop env doc sty (i + 1) endP ?s)
       \<and> lineCurrent (fold_loop env doc sty (i + 1) endP ?s) = lineCurrent ?s
       \<and> levels (fold_loop env doc sty (i + 1) endP ?s) = levels ?s
       \<and> levelPrev (fold_loop env doc sty (i + 1) endP ?s) = levelPrev ?s
       \<and> 0 \<le> visibleChars (fold_loop env doc sty (i + 1) endP ?s)
       \<and> (visibleChars (fold_loop env doc sty (i + 1) endP ?s) > 0
            \<longleftrightarrow> visibleChars ?s > 0 \<or> visible_in doc (i + 1) (endP - 1))"
      using 1(1) [OF True st(1)] 1(3) True v by simp
    have vis: "visible_in doc i (endP - 1)
               \<longleftrightarrow> \<not> IsASpace (SafeGetCharAt doc i) \<or> visible_in doc (i + 1) (endP - 1)"
    proof
      assume "visible_in doc i (endP - 1)"
      then obtain k where k: "i \<le> k" "k \<le> endP - 1" "\<not> IsASpace (SafeGetCharAt doc k)"
        by (auto simp: visible_in_def)
      show "\<not> IsASpace (SafeGetCharAt doc i) \<or> visible_in doc (i + 1) (endP - 1)"
      proof (cases "k = i")
        case True
        then show ?thesis using k by simp
      next
        case False
        then have "i + 1 \<le> k" using k(1) by simp
        then show ?thesis using k by (auto simp: visible_in_def)
      qed
    next
      assume "\<not> IsASpace (SafeGetCharAt doc i) \<or> visible_in doc (i + 1) (endP - 1)"
      then show "visible_in doc i (endP - 1)"
      proof
        assume "\<not> IsASpace (SafeGetCharAt doc i)"
        then have "i \<le> i \<and> i \<le> endP - 1 \<and> \<not> IsASpace (SafeGetCharAt doc i)"
          using True by simp
        then show ?thesis unfolding visible_in_def by blast
      next
        assume "visible_in doc (i + 1) (endP - 1)"
        then obtain k where "i + 1 \<le> k" "k \<le> endP - 1" "\<not> IsASpace (SafeGetCharAt doc k)"
          by (auto simp: visible_in_def)
        then have "i \<le> k \<and> k \<le> endP - 1 \<and> \<not> IsASpace (SafeGetCharAt doc k)"
          by simp
        then show ?thesis unfolding visible_in_def by blast
      qed
    qed
    have unf: "fold_loop env doc sty i endP s = fold_loop env doc sty (i + 1) endP ?s"
      using True by (subst fold_loop.simps) simp
    have pos: "visibleChars ?s > 0 \<longleftrightarrow> visibleChars s > 0 \<or> \<not> IsASpace (SafeGetCharAt doc i)"
      using st(5) 1(5) by auto
    show ?thesis
      unfolding unf using IH st(2,3,4) vis pos by simp
  qed
qed

lemma fold_loop_split:
  "a \<le> m \<Longrightarrow> m \<le> e \<Longrightarrow>
   fold_loop env doc sty a e s = fold_loop env doc sty m e (fold_loop env doc sty a m s)"
proof (induction env doc sty a m s rule: fold_loop.induct)
  case (1 env doc sty i endP s)
  show ?case
  proof (cases "i < endP")
    case True
    have l: "fold_loop env doc sty i e s = fold_loop env doc sty (i + 1) e (fold_char env doc sty i s)"
      using True 1(3) by (subst fold_loop.simps) simp
    have r: "fold_loop env doc sty i endP s
             = fold_loop env doc sty (i + 1) endP (fold_char env doc sty i s)"
      using True by (subst fold_loop.simps) simp
    show ?thesis
      unfolding l r using 1(1) [OF True] True 1(3) by simp
  next
    case False
    then have eq: "i = endP"
      using 1(2) by simp
    have "fold_loop env doc sty i endP s = s"
      using False by (subst fold_loop.simps) simp
    then show ?thesis using eq by simp
  qed
qed

lemma fold_loop_one:
  "fold_loop env doc sty i (i + 1) s = fold_char env doc sty i s"
  by (subst fold_loop.simps, simp) (subst fold_loop.simps, simp)

lemma line_level_header:
  "lPrev AND SC_FOLDLEVELHEADERFLAG = 0 \<Longrightarrow>
   (line_level c lPrev lCur v AND SC_FOLDLEVELHEADERFLAG \<noteq> 0) \<longleftrightarrow> (lCur > lPrev \<and> v > 0)"
  by (simp add: line_level_def Let_def bit.conj_disj_distrib2)

lemma line_level_number:
  assumes "0 \<le> lPrev" and "lPrev \<le> SC_FOLDLEVELNUMBERMASK"
  shows "line_level c lPrev lCur v AND SC_FOLDLEVELNUMBERMASK = lPrev"
proof -
  have m: "(4095 :: int) = mask 12" by (simp add: mask_eq_exp_minus_1)
  have "lPrev AND 4095 = lPrev"
    unfolding m using assms by (simp add: take_bit_eq_mask [symmetric] take_bit_int_eq_self)
  then show ?thesis
    by (simp add: line_level_def Let_def bit.conj_disj_distrib2)
qed

lemma fold_char_synced:
  "synced doc sty i s \<Longrightarrow> synced doc sty (i + 1) (fold_char env doc sty i s)"
  by (simp add: fold_char_def fold_line_end_def synced_def Let_def)

lemma fold_loop_synced:
  "synced doc sty a s \<Longrightarrow> a \<le> e \<Longrightarrow> synced doc sty e (fold_loop env doc sty a e s)"
proof (induction env doc sty a e s rule: fold_loop.induct)
  case (1 env doc sty i endP s)
  show ?case
  proof (cases "i < endP")
    case True
    have unf: "fold_loop env doc sty i endP s
               = fold_loop env doc sty (i + 1) endP (fold_char env doc sty i s)"
      using True by (subst fold_loop.simps) simp
    show ?thesis
      unfolding unf using 1(1) [OF True fold_char_synced [OF 1(2)]] True by simp
  next
    case False
    then have eq: "i = endP" using 1(3) by simp
    have "fold_loop env doc sty i endP s = s"
      using False by (subst fold_loop.simps) simp
    then show ?thesis using eq 1(2) by simp
  qed
qed

lemma fold_char_frame:
  "lineCurrent s \<le> lineCurrent (fold_char env doc sty i s)"
  "l < lineCurrent s \<Longrightarrow> levels (fold_char env doc sty i s) l = levels s l"
  by (simp_all add: fold_char_def fold_line_end_def Let_def)

lemma fold_loop_frame:
  "lineCurrent s \<le> lineCurrent (fold_loop env doc sty a e s)
   \<and> (l < lineCurrent s \<longrightarrow> levels (fold_loop env doc sty a e s) l = levels s l)"
proof (induction env doc sty a e s rule: fold_loop.induct)
  case (1 env doc sty i endP s)
  show ?case
  proof (cases "i < endP")
    case True
    have unf: "fold_loop env doc sty i endP s
               = fold_loop env doc sty (i + 1) endP (fold_char env doc sty i s)"
      using True by (subst fold_loop.simps) simp
    show ?thesis
      unfolding unf
      using 1 [OF True] fold_char_frame(1) [of s env doc sty i]
        fold_char_frame(2) [of l s env doc sty i]
      by auto
  next
    case False
    have "fold_loop env doc sty i endP s = s"
      using False by (subst fold_loop.simps) simp
    then show ?thesis by simp
  qed
qed

lemma fold_init_start:
  "synced doc sty startPos (fold_init doc sty lv startPos)"
  "visibleChars (fold_init doc sty lv startPos) = 0"
  by (simp_all add: fold_init_def synced_def)

lemma fold_loop_line_start:
  assumes "startPos \<le> a" and "a = startPos \<or> atEOL doc (a - 1)"
  shows "visibleChars (fold_loop env doc sty startPos a (fold_init doc sty lv startPos)) = 0"
proof (cases "a = startPos")
  case True
  have "fold_loop env doc sty startPos startPos (fold_init doc sty lv startPos)
        = fold_init doc sty lv startPos"
    by (subst fold_loop.simps) simp
  then show ?thesis using True by (simp add: fold_init_start)
next
  case False
  then have lt: "startPos \<le> a - 1" and eol: "atEOL doc (a - 1)"
    using assms by auto
  let ?p = "fold_loop env doc sty startPos (a - 1) (fold_init doc sty lv startPos)"
  have sy: "synced doc sty (a - 1) ?p"
    by (rule fold_loop_synced [OF fold_init_start(1) lt])
  have "fold_loop env doc sty startPos a (fold_init doc sty lv startPos)
        = fold_loop env doc sty (a - 1) a ?p"
    by (rule fold_loop_split [OF lt]) simp
  also have "\<dots> = fold_char env doc sty (a - 1) ?p"
    using fold_loop_one [of env doc sty "a - 1" ?p] by simp
  finally show ?thesis
    using fold_char_line_end(4) [OF sy eol, of env] by simp
qed

lemma visible_in_line_end:
  assumes "atEOL doc e" and "a \<le> e"
  shows "visible_in doc a e \<longleftrightarrow> visible_in doc a (e - 1)"
proof
  assume "visible_in doc a e"
  then obtain k where k: "a \<le> k" "k \<le> e" "\<not> IsASpace (SafeGetCharAt doc k)"
    by (auto simp: visible_in_def)
  have "IsASpace (SafeGetCharAt doc e)"
    using assms(1) by (auto simp: atEOL_def IsASpace_def Contains_def)
  then have "k \<noteq> e" using k(3) by auto
  then have "a \<le> k \<and> k \<le> e - 1 \<and> \<not> IsASpace (SafeGetCharAt doc k)"
    using k by simp
  then show "visible_in doc a (e - 1)" unfolding visible_in_def by blast
next
  assume "visible_in doc a (e - 1)"
  then obtain k where "a \<le> k" "k \<le> e - 1" "\<not> IsASpace (SafeGetCharAt doc k)"
    by (auto simp: visible_in_def)
  then have "a \<le> k \<and> k \<le> e \<and> \<not> IsASpace (SafeGetCharAt doc k)" by simp
  then show "visible_in doc a e" unfolding visible_in_def by blast
qed

lemma fold_line_emitted:
  assumes se: "startPos \<le> a" "a \<le> e" "e < startPos + len"
    and start: "a = startPos \<or> atEOL doc (a - 1)"
    and inside: "\<forall>k. a \<le> k \<and> k < e \<longrightarrow> \<not> atEOL doc k"
    and eol: "atEOL doc e"
    and s: "s = fold_loop env doc sty startPos a (fold_init doc sty lv startPos)"
    and s': "s' = fold_loop env doc sty startPos (e + 1) (fold_init doc sty lv startPos)"
  shows "lineCurrent s' = lineCurrent s + 1"
    and "\<exists>v. levels (FoldBashDoc env doc sty lv startPos len) (lineCurrent s)
             = line_level (foldCompact env) (levelPrev s) (levelPrev s') v
           \<and> 0 \<le> v \<and> (v > 0 \<longleftrightarrow> visible_in doc a e)"
proof -
  let ?i = "fold_init doc sty lv startPos"
  have sy: "synced doc sty a s"
    unfolding s by (rule fold_loop_synced [OF fold_init_start(1) se(1)])
  have v0: "visibleChars s = 0"
    unfolding s by (rule fold_loop_line_start [OF se(1) start])
  let ?m = "fold_loop env doc sty a e s"
  have v0': "0 \<le> visibleChars s" using v0 by simp
  note m = fold_loop_inside [OF sy inside se(2) v0', of env]
  have msy: "synced doc sty e ?m" using m by simp
  have s'm: "s' = fold_char env doc sty e ?m"
  proof -
    have "s' = fold_loop env doc sty a (e + 1) s"
      unfolding s s' using se by (intro fold_loop_split) simp_all
    also have "\<dots> = fold_loop env doc sty e (e + 1) ?m"
      using se by (intro fold_loop_split) simp_all
    finally show ?thesis by (simp add: fold_loop_one)
  qed
  note le = fold_char_line_end [OF msy eol, of env]
  show lc: "lineCurrent s' = lineCurrent s + 1"
    unfolding s'm using le(2) m by simp
  have lv': "levels s' (lineCurrent s)
             = line_level (foldCompact env) (levelPrev s) (levelPrev s') (visibleChars ?m)"
    unfolding s'm using le(3) m by simp
  let ?f = "fold_loop env doc sty (e + 1) (startPos + len) s'"
  have f: "?f = fold_loop env doc sty startPos (startPos + len) ?i"
    unfolding s' using se by (intro fold_loop_split [symmetric]) simp_all
  have fr: "lineCurrent s' \<le> lineCurrent ?f" "levels ?f (lineCurrent s) = levels s' (lineCurrent s)"
    using fold_loop_frame [of s' env doc sty "e + 1" "startPos + len" "lineCurrent s"] lc by simp_all
  have out: "levels (FoldBashDoc env doc sty lv startPos len) (lineCurrent s)
             = levels s' (lineCurrent s)"
    using fr lc unfolding f by (simp add: FoldBashDoc_def Let_def)
  have vis: "visibleChars ?m > 0 \<longleftrightarrow> visible_in doc a e"
    using m v0 visible_in_line_end [OF eol se(2)] by simp
  show "\<exists>v. levels (FoldBashDoc env doc sty lv startPos len) (lineCurrent s)
             = line_level (foldCompact env) (levelPrev s) (levelPrev s') v
           \<and> 0 \<le> v \<and> (v > 0 \<longleftrightarrow> visible_in doc a e)"
    using out lv' vis m by auto
qed

lemma line_starts_from_gt:
  "x \<in> set (line_starts_from cs p) \<Longrightarrow> p < x"
proof (induction cs arbitrary: p)
  case Nil
  then show ?case by simp
next
  case (Cons c cs)
  then show ?case by (fastforce split: if_splits)
qed

lemma GetLine_0: "GetLine doc 0 = 0"
proof -
  have "filter (\<lambda>s. s \<le> 0) (line_starts_from doc 0) = []"
    using line_starts_from_gt [of _ doc 0] by (fastforce simp: filter_empty_conv)
  then show ?thesis by (simp add: GetLine_def line_starts_def)
qed

lemma fold_char_closer:
  assumes "synced doc sty i s" and "SafeGetCharAt doc i = CHR ''}''"
    and "StyleAt sty i = SCE_SH_OPERATOR"
  shows "levelCurrent (fold_char env doc sty i s) = levelCurrent s - 1"
  using assms
  by (simp add: fold_char_def synced_def Let_def fold_comment_def fold_word_def
      fold_operator_def fold_here_def)

lemma fold_loop_closers:
  assumes "synced doc sty a s"
    and "\<forall>k. a \<le> k \<and> k < e \<longrightarrow>
           SafeGetCharAt doc k = CHR ''}'' \<and> StyleAt sty k = SCE_SH_OPERATOR"
    and "a \<le> e"
  shows "levelCurrent (fold_loop env doc sty a e s) = levelCurrent s - (e - a)"
  using assms
proof (induction env doc sty a e s rule: fold_loop.induct)
  case (1 env doc sty i endP s)
  show ?case
  proof (cases "i < endP")
    case True
    have unf: "fold_loop env doc sty i endP s
               = fold_loop env doc sty (i + 1) endP (fold_char env doc sty i s)"
      using True by (subst fold_loop.simps) simp
    have c: "SafeGetCharAt doc i = CHR ''}''" "StyleAt sty i = SCE_SH_OPERATOR"
      using 1(3) True by simp_all
    have "levelCurrent (fold_loop env doc sty (i + 1) endP (fold_char env doc sty i s))
          = levelCurrent (fold_char env doc sty i s) - (endP - (i + 1))"
      using 1(1) [OF True fold_char_synced [OF 1(2)]] 1(3) True by simp
    then show ?thesis
      unfolding unf using fold_char_closer [OF 1(2) c, of env] by simp
  next
    case False
    then have eq: "i = endP" using 1(4) by simp
    have "fold_loop env doc sty i endP s = s"
      using False by (subst fold_loop.simps) simp
    then show ?thesis using eq by simp
  qed
qed

lemma fold_char_plain_line_end:
  assumes "synced doc sty i s" and "SafeGetCharAt doc i = LF"
    and "StyleAt sty i = SCE_SH_DEFAULT" and "\<not> foldComment env"
  shows "levelPrev (fold_char env doc sty i s) = levelCurrent s"
    and "levelCurrent (fold_char env doc sty i s) = levelCurrent s"
  using assms
  by (simp_all add: fold_char_def synced_def Let_def fold_comment_def fold_word_def
      fold_operator_def fold_here_def fold_line_end_def IsASpace_def Contains_def)

lemma closers_chars:
  "0 \<le> k \<Longrightarrow> k < int n \<Longrightarrow> SafeGetCharAt (closers n) k = CHR ''}''"
  "0 \<le> k \<Longrightarrow> k < int n \<Longrightarrow> StyleAt (closers_styles n) k = SCE_SH_OPERATOR"
  "SafeGetCharAt (closers n) (int n) = LF"
  "SafeGetCharAt (closers n) (int n + 1) = LF"
  "StyleAt (closers_styles n) (int n) = SCE_SH_DEFAULT"
  "StyleAt (closers_styles n) (int n + 1) = SCE_SH_DEFAULT"
  by (simp_all add: SafeGetCharAt_def StyleAt_def closers_def closers_styles_def nth_append
      nat_add_distrib)

lemma closers_levels:
  assumes "\<not> foldComment env"
  shows "levels (FoldBashDoc env (closers n) (closers_styles n) base_levels 0 (int n + 2)) 1
         = line_level (foldCompact env) (SC_FOLDLEVELBASE - int n) (SC_FOLDLEVELBASE - int n) 0"
proof -
  let ?doc = "closers n" and ?sty = "closers_styles n"
  let ?i = "fold_init ?doc ?sty base_levels 0"
  let ?s1 = "fold_loop env ?doc ?sty 0 (int n) ?i"
  let ?s2 = "fold_loop env ?doc ?sty 0 (int n + 1) ?i"
  let ?s3 = "fold_loop env ?doc ?sty 0 (int n + 1 + 1) ?i"
  have i: "lineCurrent ?i = 0" "levelPrev ?i = SC_FOLDLEVELBASE"
    "levelCurrent ?i = SC_FOLDLEVELBASE" "0 \<le> visibleChars ?i"
    by (simp_all add: fold_init_def GetLine_0 base_levels_def)
  have noeol: "\<forall>k. 0 \<le> k \<and> k < int n \<longrightarrow> \<not> atEOL ?doc k"
    by (simp add: atEOL_def closers_chars(1))
  have cl: "\<forall>k. 0 \<le> k \<and> k < int n \<longrightarrow>
              SafeGetCharAt ?doc k = CHR ''}'' \<and> StyleAt ?sty k = SCE_SH_OPERATOR"
    by (simp add: closers_chars)
  note sy0 = fold_init_start(1) [of ?doc ?sty 0 base_levels]
  note in1 = fold_loop_inside [where env = env, OF sy0 noeol _ i(4)]
  have s1: "synced ?doc ?sty (int n) ?s1" "lineCurrent ?s1 = 0"
    "levelCurrent ?s1 = SC_FOLDLEVELBASE - int n"
    using in1 i fold_loop_closers [where env = env, OF sy0 cl] by simp_all
  have e1: "atEOL ?doc (int n)" and e2: "atEOL ?doc (int n + 1)"
    by (simp_all add: atEOL_def closers_chars)
  have s2c: "?s2 = fold_char env ?doc ?sty (int n) ?s1"
    using fold_loop_split [of 0 "int n" "int n + 1" env ?doc ?sty ?i]
    by (simp add: fold_loop_one)
  have s2: "synced ?doc ?sty (int n + 1) ?s2" "lineCurrent ?s2 = 1"
    "levelPrev ?s2 = SC_FOLDLEVELBASE - int n" "levelCurrent ?s2 = SC_FOLDLEVELBASE - int n"
    unfolding s2c
    using fold_char_line_end(1,2) [OF s1(1) e1, of env] s1(2,3)
      fold_char_plain_line_end [OF s1(1) closers_chars(3) closers_chars(5) assms]
    by simp_all
  have "?s3 = fold_loop env ?doc ?sty (int n + 1) (int n + 1 + 1) ?s2"
    by (rule fold_loop_split) simp_all
  then have s3c: "?s3 = fold_char env ?doc ?sty (int n + 1) ?s2"
    by (simp only: fold_loop_one)
  have s3: "levelPrev ?s3 = SC_FOLDLEVELBASE - int n"
    unfolding s3c
    using fold_char_plain_line_end(1) [OF s2(1) closers_chars(4) closers_chars(6) assms] s2(4)
    by simp
  have blank: "\<not> visible_in ?doc (int n + 1) (int n + 1)"
  proof
    assume "visible_in ?doc (int n + 1) (int n + 1)"
    then obtain k where k: "int n + 1 \<le> k" "k \<le> int n + 1"
        "\<not> IsASpace (SafeGetCharAt ?doc k)"
      by (auto simp: visible_in_def)
    have "k = int n + 1" using k(1,2) by arith
    then have "\<not> IsASpace (SafeGetCharAt ?doc (int n + 1))"
      using k(3) by simp
    then show False
      by (simp add: closers_chars IsASpace_def Contains_def)
  qed
  have "\<exists>v. levels (FoldBashDoc env ?doc ?sty base_levels 0 (int n + 2)) (lineCurrent ?s2)
             = line_level (foldCompact env) (levelPrev ?s2) (levelPrev ?s3) v
           \<and> 0 \<le> v \<and> (v > 0 \<longleftrightarrow> visible_in ?doc (int n + 1) (int n + 1))"
    by (rule fold_line_emitted(2) [where a = "int n + 1" and e = "int n + 1"])
      (use e1 e2 in auto)
  then obtain v where v: "levels (FoldBashDoc env ?doc ?sty base_levels 0 (int n + 2)) 1
             = line_level (foldCompact env) (SC_FOLDLEVELBASE - int n) (SC_FOLDLEVELBASE - int n) v"
      "0 \<le> v" "v > 0 \<longleftrightarrow> visible_in ?doc (int n + 1) (int n + 1)"
    using s2 s3 by auto
  then have "v = 0" using blank by simp
  then show ?thesis using v(1) by simp
qed

section \<open>The line index and the cursor\<close>

lemma line_starts_from_le:
  "x \<in> set (line_starts_from cs p) \<Longrightarrow> x \<le> p + int (length cs)"
proof (induction cs arbitrary: p)
  case Nil
  then show ?case by simp
next
  case (Cons c cs)
  then show ?case by (fastforce split: if_splits)
qed

lemma line_starts_from_sorted: "sorted_wrt (<) (line_starts_from cs p)"
proof (induction cs arbitrary: p)
  case Nil
  then show ?case by simp
next
  case (Cons c cs)
  then show ?case using line_starts_from_gt [of _ cs "p + 1"] by auto
qed

lemma count_le_props:
  assumes "sorted_wrt (<) (xs :: int list)"
  shows "(\<forall>i < length (filter (\<lambda>s. s \<le> p) xs). xs ! i \<le> p)
       \<and> (length (filter (\<lambda>s. s \<le> p) xs) < length xs \<longrightarrow>
            p < xs ! length (filter (\<lambda>s. s \<le> p) xs))"
  using assms
proof (induction xs)
  case Nil
  then show ?case by simp
next
  case (Cons x xs)
  show ?case
  proof (cases "x \<le> p")
    case True
    then show ?thesis using Cons by (auto simp: nth_Cons split: nat.splits)
  next
    case False
    then have "filter (\<lambda>s. s \<le> p) xs = []"
      using Cons(2) by (auto simp: filter_empty_conv)
    then show ?thesis using False by simp
  qed
qed

lemma count_le_char:
  assumes "sorted_wrt (<) (xs :: int list)" and "k \<le> length xs"
    and "\<forall>i < k. xs ! i \<le> p" and "k < length xs \<longrightarrow> p < xs ! k"
  shows "length (filter (\<lambda>s. s \<le> p) xs) = k"
proof -
  let ?k = "length (filter (\<lambda>s. s \<le> p) xs)"
  note pr = count_le_props [OF assms(1), of p]
  have "\<not> k < ?k"
  proof
    assume a: "k < ?k"
    then have "xs ! k \<le> p" using pr by simp
    moreover have "k < length xs" by (rule less_le_trans [OF a length_filter_le])
    ultimately show False using assms(4) by simp
  qed
  moreover have "\<not> ?k < k"
  proof
    assume a: "?k < k"
    then have "xs ! ?k \<le> p" using assms(3) by simp
    moreover have "?k < length xs" using a assms(2) by simp
    ultimately show False using pr by simp
  qed
  ultimately show ?thesis by simp
qed

lemma count_le_strict:
  assumes "sorted_wrt (<) (xs :: int list)" and "q \<in> set xs" and "p < q"
  shows "length (filter (\<lambda>s. s \<le> p) xs) < length (filter (\<lambda>s. s \<le> q) xs)"
proof -
  let ?k = "length (filter (\<lambda>s. s \<le> p) xs)" and ?m = "length (filter (\<lambda>s. s \<le> q) xs)"
  obtain j where j: "j < length xs" "xs ! j = q"
    using assms(2) by (auto simp: in_set_conv_nth)
  note pq = count_le_props [OF assms(1), of q]
  note pp = count_le_props [OF assms(1), of p]
  have jm: "j < ?m"
  proof (rule ccontr)
    assume "\<not> j < ?m"
    then have mj: "?m \<le> j" by simp
    then have ml: "?m < length xs" using j(1) by simp
    then have "q < xs ! ?m" using pq by simp
    moreover have "xs ! ?m \<le> xs ! j"
    proof (cases "?m = j")
      case True
      then show ?thesis by simp
    next
      case False
      then have "?m < j" using mj by simp
      then show ?thesis using sorted_wrt_nth_less [OF assms(1) _ j(1)] by fastforce
    qed
    ultimately show False using j(2) by simp
  qed
  show ?thesis
  proof (rule ccontr)
    assume "\<not> ?k < ?m"
    then have "j < ?k" using jm by simp
    then have "xs ! j \<le> p" using pp by simp
    then show False using j(2) assms(3) by simp
  qed
qed

lemma GetLine_count:
  "GetLine doc p = int (length (filter (\<lambda>s. s \<le> p) (line_starts_from doc 0)))"
  by (simp add: GetLine_def line_starts_def)

lemma GetLine_last: "GetLine doc (int (length doc)) = int (length (line_starts_from doc 0))"
proof -
  have "filter (\<lambda>s. s \<le> int (length doc)) (line_starts_from doc 0) = line_starts_from doc 0"
    using line_starts_from_le [of _ doc 0] by (auto simp: filter_id_conv)
  then show ?thesis by (simp add: GetLine_count)
qed

lemma LineStart_next:
  "LineStart doc (int k + 1)
   = (if k < length (line_starts_from doc 0) then line_starts_from doc 0 ! k
      else int (length doc))"
proof -
  have "nat (int k + 1) = Suc k" by simp
  then show ?thesis by (simp add: LineStart_def line_starts_def)
qed

lemma GetLine_strict:
  assumes "q \<in> set (line_starts doc)" and "p < q" and "0 \<le> p"
  shows "GetLine doc p < GetLine doc q"
proof -
  have "q \<in> set (line_starts_from doc 0)"
    using assms by (auto simp: line_starts_def)
  then show ?thesis
    using count_le_strict [OF line_starts_from_sorted _ assms(2), of doc 0]
    by (simp add: GetLine_count)
qed

lemma GetLine_step:
  assumes "p < int (length doc)"
  shows "line_end_at doc p \<Longrightarrow>
           p + 1 \<in> set (line_starts doc) \<and> GetLine doc (p + 1) = GetLine doc p + 1"
    and "\<not> line_end_at doc p \<Longrightarrow> GetLine doc (p + 1) = GetLine doc p"
proof -
  let ?S = "line_starts_from doc 0"
  let ?k = "length (filter (\<lambda>s. s \<le> p) ?S)"
  note so = line_starts_from_sorted [of doc 0]
  note pr = count_le_props [OF so, of p]
  have g: "GetLine doc p = int ?k" by (rule GetLine_count)
  have kl: "?k \<le> length ?S" by (rule length_filter_le)
  have le: "line_end_at doc p \<longleftrightarrow> ?k < length ?S \<and> p \<ge> ?S ! ?k - 1"
    using assms by (simp add: line_end_at_def g GetLine_last LineStart_next)
  {
    assume "line_end_at doc p"
    then have k: "?k < length ?S" and ge: "p \<ge> ?S ! ?k - 1" using le by simp_all
    have lt: "p < ?S ! ?k" using pr k by simp
    have eq: "p + 1 = ?S ! ?k" using ge lt by simp
    have "length (filter (\<lambda>s. s \<le> p + 1) ?S) = Suc ?k"
    proof (rule count_le_char [OF so])
      show "Suc ?k \<le> length ?S" using k by simp
      show "\<forall>i < Suc ?k. ?S ! i \<le> p + 1"
      proof (intro allI impI)
        fix i assume "i < Suc ?k"
        then consider "i < ?k" | "i = ?k" by linarith
        then show "?S ! i \<le> p + 1"
        proof cases
          case 1
          then have "?S ! i \<le> p" using pr by simp
          then show ?thesis by simp
        next
          case 2
          then show ?thesis using eq by simp
        qed
      qed
      show "Suc ?k < length ?S \<longrightarrow> p + 1 < ?S ! Suc ?k"
      proof
        assume a: "Suc ?k < length ?S"
        have "?S ! ?k < ?S ! Suc ?k"
          by (rule sorted_wrt_nth_less [OF so _ a]) simp
        then show "p + 1 < ?S ! Suc ?k" using eq by simp
      qed
    qed
    then have "GetLine doc (p + 1) = GetLine doc p + 1"
      by (simp add: GetLine_count)
    moreover have "p + 1 \<in> set (line_starts doc)"
      using eq k by (simp add: line_starts_def)
    ultimately show "p + 1 \<in> set (line_starts doc) \<and> GetLine doc (p + 1) = GetLine doc p + 1"
      by simp
  }
  {
    assume "\<not> line_end_at doc p"
    then have n: "?k < length ?S \<longrightarrow> p + 1 < ?S ! ?k" using le by auto
    have "length (filter (\<lambda>s. s \<le> p + 1) ?S) = ?k"
    proof (rule count_le_char [OF so kl _ n])
      show "\<forall>i < ?k. ?S ! i \<le> p + 1"
      proof (intro allI impI)
        fix i assume "i < ?k"
        then have "?S ! i \<le> p" using pr by simp
        then show "?S ! i \<le> p + 1" by simp
      qed
    qed
    then show "GetLine doc (p + 1) = GetLine doc p"
      by (simp add: GetLine_count)
  }
qed

lemma line_inv_Forward: "line_inv doc c \<Longrightarrow> line_inv doc (Forward doc c)"
proof -
  assume i: "line_inv doc c"
  show ?thesis
  proof (cases "currentPos c < endPos c")
    case False
    then show ?thesis using i by (simp add: line_inv_def Forward_def)
  next
    case True
    then have pl: "currentPos c < int (length doc)" using i by (simp add: line_inv_def)
    have e: "atLineEnd c = line_end_at doc (currentPos c)"
      using i True by (simp add: line_inv_def line_end_at_def)
    note st = GetLine_step [OF pl]
    show ?thesis
    proof (cases "atLineEnd c")
      case True
      then show ?thesis
        using i \<open>currentPos c < endPos c\<close> st(1) e
        by (simp add: line_inv_def Forward_def GetNextChar_def add.commute)
    next
      case False
      then show ?thesis
        using i \<open>currentPos c < endPos c\<close> st(2) e
        by (simp add: line_inv_def Forward_def GetNextChar_def)
    qed
  qed
qed

lemma LineStart_GetLine_in: "LineStart doc (GetLine doc p) \<in> set (line_starts doc)"
proof -
  have "nat (GetLine doc p) < length (line_starts doc)"
    by (simp add: GetLine_def line_starts_def less_Suc_eq_le)
  moreover have "0 \<le> GetLine doc p" by (simp add: GetLine_def)
  ultimately show ?thesis by (simp add: LineStart_def)
qed

lemma line_inv_init:
  assumes "0 \<le> start" and "start + len \<le> int (length doc)"
  shows "line_inv doc (StyleContext_init doc start len st0 st ls)"
  using assms LineStart_GetLine_in [of doc start]
  by (auto simp: line_inv_def StyleContext_init_def GetNextChar_def)

lemma lkeep_refl [simp, intro]: "lkeep doc c c" by (simp add: lkeep_def)

lemma lineState_Forward [simp]: "lineState (Forward doc d) = lineState d"
  by (simp add: Forward_def GetNextChar_def)

lemma lkeep_Forward [simp]: "lkeep doc c d \<Longrightarrow> lkeep doc c (Forward doc d)"
  by (simp add: lkeep_def line_inv_Forward)


lemma lkeep_SetState [simp]: "lkeep doc c d \<Longrightarrow> lkeep doc c (SetState doc st d)"
  by (simp add: lkeep_def line_inv_def SetState_def ColourTo_def)

lemma lkeep_ChangeState [simp]: "lkeep doc c d \<Longrightarrow> lkeep doc c (ChangeState st d)"
  by (simp add: lkeep_def line_inv_def ChangeState_def)

lemma lkeep_ForwardSetState [simp]: "lkeep doc c d \<Longrightarrow> lkeep doc c (ForwardSetState doc st d)"
  by (simp add: ForwardSetState_def)

lemma lkeep_ForwardN [simp]: "lkeep doc c d \<Longrightarrow> lkeep doc c (ForwardN doc n d)"
  by (induction n arbitrary: d) auto

lemma lkeep_skip_tabs [simp]: "lkeep doc c d \<Longrightarrow> lkeep doc c (fst (skip_tabs doc d n))"
  by (induction doc d n rule: skip_tabs.induct) (subst skip_tabs.simps, auto)

lemma lkeep_to_line_end [simp]: "lkeep doc c d \<Longrightarrow> lkeep doc c (to_line_end doc d)"
  by (induction doc d rule: to_line_end.induct) (subst to_line_end.simps, auto)

lemma lkeep_case_OPERATOR [simp]: "lkeep doc c (sc L) \<Longrightarrow> lkeep doc c (sc (case_OPERATOR doc L))"
  by (auto simp: case_OPERATOR_def Let_def)

lemma lkeep_classify_word [simp]: "lkeep doc c (sc L) \<Longrightarrow> lkeep doc c (sc (classify_word kw s e L))"
  using sc_classify_word[of kw s e L] by auto

lemma lkeep_case_WORD [simp]: "lkeep doc c (sc L) \<Longrightarrow> lkeep doc c (sc (case_WORD doc kw L))"
  by (auto simp: case_WORD_def Let_def)

lemma lkeep_case_IDENTIFIER [simp]: "lkeep doc c (sc L) \<Longrightarrow> lkeep doc c (sc (case_IDENTIFIER doc L))"
  by (auto simp: case_IDENTIFIER_def Let_def)

lemma lkeep_number_end [simp]: "lkeep doc c (sc L) \<Longrightarrow> lkeep doc c (sc (number_end doc L))"
  by (auto simp: number_end_def Let_def)

lemma lkeep_case_NUMBER [simp]: "lkeep doc c (sc L) \<Longrightarrow> lkeep doc c (sc (case_NUMBER doc L))"
  by (auto simp: case_NUMBER_def Let_def)

lemma lkeep_case_COMMENTLINE [simp]: "lkeep doc c (sc L) \<Longrightarrow> lkeep doc c (sc (case_COMMENTLINE doc L))"
  by (auto simp: case_COMMENTLINE_def Let_def)

lemma lkeep_case_HERE_DELIM [simp]: "lkeep doc c (sc L) \<Longrightarrow> lkeep doc c (sc (case_HERE_DELIM doc L))"
  by (auto simp: case_HERE_DELIM_def here_delim_announced_def here_delim_collect_def
      collect_char_def Let_def)

lemma lkeep_case_HERE_Q [simp]: "lkeep doc c (sc L) \<Longrightarrow> lkeep doc c (sc (case_HERE_Q doc L))"
  apply (auto simp: case_HERE_Q_def Let_def split: prod.splits)
  apply (metis lkeep_skip_tabs lkeep_SetState lkeep_to_line_end fst_conv)+
  done

lemma lkeep_case_SCALAR [simp]: "lkeep doc c (sc L) \<Longrightarrow> lkeep doc c (sc (case_SCALAR doc L))"
  by (auto simp: case_SCALAR_def Let_def)

lemma lkeep_case_STRING [simp]: "lkeep doc c (sc L) \<Longrightarrow> lkeep doc c (sc (case_STRING doc L))"
  by (auto simp: case_STRING_def string_nesting_def forward_push_def Let_def)

lemma lkeep_case_PARAM [simp]: "lkeep doc c (sc L) \<Longrightarrow> lkeep doc c (sc (case_PARAM doc L))"
  by (auto simp: case_PARAM_def Let_def)

lemma lkeep_case_CHARACTER [simp]: "lkeep doc c (sc L) \<Longrightarrow> lkeep doc c (sc (case_CHARACTER doc L))"
  by (auto simp: case_CHARACTER_def Let_def)

lemma lkeep_terminate_state [simp]: "lkeep doc c (sc L) \<Longrightarrow> lkeep doc c (sc (terminate_state doc kw L))"
  by (auto simp: terminate_state_def split: style.splits)

lemma lkeep_here_doc_line_end [simp]: "lkeep doc c (sc L) \<Longrightarrow> lkeep doc c (sc (here_doc_line_end doc L))"
  by (auto simp: here_doc_line_end_def Let_def)

lemma lkeep_enter_number [simp]: "lkeep doc c (sc L) \<Longrightarrow> lkeep doc c (sc (enter_number doc L))"
  by (auto simp: enter_number_def Let_def)

lemma lkeep_enter_hash [simp]: "lkeep doc c (sc L) \<Longrightarrow> lkeep doc c (sc (enter_hash doc sp L))"
  by (auto simp: enter_hash_def Let_def)

lemma lkeep_enter_dollar [simp]: "lkeep doc c (sc L) \<Longrightarrow> lkeep doc c (sc (enter_dollar doc L))"
  by (auto simp: enter_dollar_def Let_def)

lemma lkeep_enter_here_delim [simp]: "lkeep doc c (sc L) \<Longrightarrow> lkeep doc c (sc (enter_here_delim doc L))"
  by (auto simp: enter_here_delim_def Let_def)

lemma lkeep_open_expression [simp]: "lkeep doc c (sc L) \<Longrightarrow> lkeep doc c (sc (open_expression doc L))"
  by (auto simp: open_expression_def Let_def)

lemma lkeep_close_expression [simp]: "lkeep doc c (sc L) \<Longrightarrow> lkeep doc c (sc (close_expression doc L))"
  by (auto simp: close_expression_def Let_def)

lemma lkeep_command_delimiter [simp]: "lkeep doc c (sc L) \<Longrightarrow> lkeep doc c (sc (command_delimiter doc L))"
  by (auto simp: command_delimiter_def Let_def)

lemma lkeep_enter_operator [simp]: "lkeep doc c (sc L) \<Longrightarrow> lkeep doc c (sc (enter_operator doc L))"
  by (auto simp: enter_operator_def Let_def)

lemma lkeep_enter_state [simp]: "lkeep doc c (sc L) \<Longrightarrow> lkeep doc c (sc (enter_state doc sp L))"
  by (auto simp: enter_state_def Let_def)

lemma lkeep_after_line_start:
  "lkeep doc (sc (line_start_update doc L)) (sc (loop_body doc kw L))"
  by (simp add: loop_body_def Let_def)

lemma line_inv_line_start_update [simp]:
  "line_inv doc (sc (line_start_update doc L)) = line_inv doc (sc L)"
  by (simp add: line_start_update_def line_inv_def SetLineState_def Let_def)

lemma line_start_update_body:
  assumes "atLineStart (sc L)" and "multi_line_style (state (sc L))"
  shows "lineState (sc (line_start_update doc L)) (GetLine doc (currentPos (sc L))) = BASH_CMD_BODY"
    and "cmdState (line_start_update doc L) = cmdState L"
  using assms by (simp_all add: line_start_update_def SetLineState_def Let_def)

lemma line_start_update_other:
  "\<not> atLineStart (sc L) \<or> l \<noteq> GetLine doc (currentPos (sc L)) \<Longrightarrow>
   lineState (sc (line_start_update doc L)) l = lineState (sc L) l"
  by (auto simp: line_start_update_def SetLineState_def Let_def)

lemma lineState_loop_step:
  "lineState (sc (loop_step doc kw L)) = lineState (sc (line_start_update doc L))"
  using lkeep_after_line_start [of doc L kw]
  by (simp add: loop_step_def Let_def lkeep_def)

lemma line_inv_loop_step:
  "line_inv doc (sc L) \<Longrightarrow> line_inv doc (sc (loop_step doc kw L))"
  using lkeep_after_line_start [of doc L kw]
  by (simp add: loop_step_def Let_def lkeep_def line_inv_Forward)

lemma line_inv_reach:
  "reach doc kw L0 L \<Longrightarrow> line_inv doc (sc L0) \<Longrightarrow> line_inv doc (sc L)"
  by (induction rule: reach.induct) (simp_all add: line_inv_loop_step)

lemma loop_step_moves:
  assumes "More (sc L)"
  shows "currentPos (sc L) < currentPos (sc (loop_step doc kw L))"
  using assms adv_loop_body [of L doc kw]
  by (auto simp: loop_step_def Let_def adv_def More_def Forward_def GetNextChar_def)

lemma later_step_keeps:
  assumes "line_inv doc (sc L)" and "0 \<le> p" and "p < currentPos (sc L)"
  shows "lineState (sc (loop_step doc kw L)) (GetLine doc p) = lineState (sc L) (GetLine doc p)"
proof -
  have "\<not> atLineStart (sc L) \<or> GetLine doc p \<noteq> GetLine doc (currentPos (sc L))"
  proof (cases "atLineStart (sc L)")
    case True
    then have "currentPos (sc L) \<in> set (line_starts doc)"
      using assms(1) by (simp add: line_inv_def)
    then have "GetLine doc p < GetLine doc (currentPos (sc L))"
      by (rule GetLine_strict [OF _ assms(3) assms(2)])
    then show ?thesis by simp
  next
    case False
    then show ?thesis by simp
  qed
  then show ?thesis
    unfolding lineState_loop_step by (rule line_start_update_other)
qed

lemma later_loop_keeps:
  assumes "line_inv doc (sc L)" and "0 \<le> p" and "p < currentPos (sc L)"
  shows "lineState (sc (lex_loop doc kw L)) (GetLine doc p) = lineState (sc L) (GetLine doc p)"
  using assms
proof (induction doc kw L rule: lex_loop.induct)
  case (1 doc kw L)
  show ?case
  proof (cases "More (sc L)")
    case True
    have unf: "lex_loop doc kw L = lex_loop doc kw (loop_step doc kw L)"
      using True by (subst lex_loop.simps) simp
    have "p < currentPos (sc (loop_step doc kw L))"
      using loop_step_moves [OF True, of doc kw] 1(4) by simp
    then have "lineState (sc (lex_loop doc kw (loop_step doc kw L))) (GetLine doc p)
               = lineState (sc (loop_step doc kw L)) (GetLine doc p)"
      using 1(1) [OF True line_inv_loop_step [OF 1(2)] 1(3)] by simp
    then show ?thesis
      unfolding unf using later_step_keeps [OF 1(2,3,4), of kw] by simp
  next
    case False
    then show ?thesis by (subst lex_loop.simps) simp
  qed
qed

lemma lex_loop_reach:
  "reach doc kw L0 L \<Longrightarrow> lex_loop doc kw L = lex_loop doc kw L0"
proof (induction rule: reach.induct)
  case reach_init
  show ?case by simp
next
  case (reach_step L)
  have "lex_loop doc kw L = lex_loop doc kw (loop_step doc kw L)"
    using reach_step(2) by (subst lex_loop.simps) simp
  then show ?case using reach_step(3) by simp
qed

lemma restart_line_start:
  "restart_line ls n = 0 \<or> ls (int (restart_line ls n)) = BASH_CMD_START"
  by (induction n) simp_all

lemma LineStart_nonneg: "0 \<le> LineStart doc ln"
proof -
  have "\<forall>x \<in> set (line_starts doc). 0 \<le> x"
    using line_starts_from_gt [of _ doc 0] by (fastforce simp: line_starts_def)
  then show ?thesis by (simp add: LineStart_def)
qed

lemma lineState_Complete [simp]: "lineState (Complete doc c) = lineState c"
  by (simp add: Complete_def ColourTo_def)

lemma line_start_body_kept:
  assumes "startPos + len \<le> int (length doc)"
    and "reach doc kw (pass_start doc startPos len st ls) L"
    and "More (sc L)" and "atLineStart (sc L)" and "multi_line_style (state (sc L))"
  shows "lineState (sc (ColouriseBashDoc doc kw startPos len st ls))
           (GetLine doc (currentPos (sc L))) = BASH_CMD_BODY"
proof -
  let ?L0 = "pass_start doc startPos len st ls"
  let ?p = "currentPos (sc L)"
  have i0: "line_inv doc (sc ?L0)"
    unfolding pass_start_def lexer_init_def using assms(1) LineStart_nonneg
    by (simp add: line_inv_init restart_pos_def Let_def)
  have i: "line_inv doc (sc L)" by (rule line_inv_reach [OF assms(2) i0])
  have p0: "0 \<le> ?p" using i by (simp add: line_inv_def)
  let ?L1 = "loop_step doc kw L"
  have i1: "line_inv doc (sc ?L1)" by (rule line_inv_loop_step [OF i])
  have m: "?p < currentPos (sc ?L1)" by (rule loop_step_moves [OF assms(3)])
  have b: "lineState (sc ?L1) (GetLine doc ?p) = BASH_CMD_BODY"
    unfolding lineState_loop_step by (rule line_start_update_body(1) [OF assms(4,5)])
  have "lex_loop doc kw ?L0 = lex_loop doc kw L"
    by (rule lex_loop_reach [OF assms(2), symmetric])
  also have "\<dots> = lex_loop doc kw ?L1"
    using assms(3) by (subst lex_loop.simps) simp
  finally have "lineState (sc (lex_loop doc kw ?L0)) (GetLine doc ?p) = BASH_CMD_BODY"
    using later_loop_keeps [OF i1 p0 m, of kw] b by simp
  then show ?thesis
    by (simp add: ColouriseBashDoc_def pass_start_def Let_def)
qed

lemma line_starts_sorted: "sorted_wrt (<) (line_starts doc)"
  using line_starts_from_sorted [of doc 0] line_starts_from_gt [of _ doc 0]
  by (auto simp: line_starts_def)

lemma LineStart_nth:
  "k < length (line_starts doc) \<Longrightarrow> LineStart doc (int k) = line_starts doc ! k"
  by (simp add: LineStart_def)

lemma GetLine_bound: "nat (GetLine doc p) < length (line_starts doc)"
  by (simp add: GetLine_def line_starts_def less_Suc_eq_le)

lemma GetLine_nonneg: "0 \<le> GetLine doc p"
  by (simp add: GetLine_def)

lemma LineStart_inj:
  assumes "k < length (line_starts doc)" and "m < length (line_starts doc)" and "k \<noteq> m"
  shows "LineStart doc (int k) \<noteq> LineStart doc (int m)"
proof -
  have "distinct (line_starts doc)"
    using line_starts_sorted [of doc] strict_sorted_iff [of "line_starts doc"] by simp
  then show ?thesis
    using assms by (simp add: LineStart_nth nth_eq_iff_index_eq)
qed

lemma GetLine_line_start:
  assumes "p \<in> set (line_starts doc)"
  shows "LineStart doc (GetLine doc p) = p"
proof (cases "p = 0")
  case True
  have "filter (\<lambda>s. s \<le> 0) (line_starts_from doc 0) = []"
    using line_starts_from_gt [of _ doc 0] by (fastforce simp: filter_empty_conv)
  then show ?thesis using True by (simp add: GetLine_count LineStart_def line_starts_def)
next
  case False
  let ?S = "line_starts_from doc 0"
  note so = line_starts_from_sorted [of doc 0]
  have "p \<in> set ?S" using assms False by (simp add: line_starts_def)
  then obtain j where j: "j < length ?S" "?S ! j = p" by (auto simp: in_set_conv_nth)
  have "length (filter (\<lambda>s. s \<le> p) ?S) = Suc j"
  proof (rule count_le_char [OF so])
    show "Suc j \<le> length ?S" using j(1) by simp
    show "\<forall>i < Suc j. ?S ! i \<le> p"
    proof (intro allI impI)
      fix i assume "i < Suc j"
      then consider "i < j" | "i = j" by linarith
      then show "?S ! i \<le> p"
      proof cases
        case 1
        then have "?S ! i < ?S ! j" by (rule sorted_wrt_nth_less [OF so _ j(1)])
        then show ?thesis using j(2) by simp
      next
        case 2
        then show ?thesis using j(2) by simp
      qed
    qed
    show "Suc j < length ?S \<longrightarrow> p < ?S ! Suc j"
    proof
      assume a: "Suc j < length ?S"
      have "?S ! j < ?S ! Suc j" by (rule sorted_wrt_nth_less [OF so _ a]) simp
      then show "p < ?S ! Suc j" using j(2) by simp
    qed
  qed
  then have "GetLine doc p = int j + 1" by (simp add: GetLine_count)
  then show ?thesis using j by (simp add: LineStart_next)
qed

lemma restart_line_le: "restart_line ls n \<le> n"
  by (induction n) (simp_all add: le_Suc_eq)

lemma reach_moves:
  "reach doc kw L0 L \<Longrightarrow> L = L0 \<or> currentPos (sc L0) < currentPos (sc L)"
proof (induction rule: reach.induct)
  case reach_init
  show ?case by simp
next
  case (reach_step L)
  then show ?case using loop_step_moves [OF reach_step(2), of doc kw] by auto
qed

section \<open>A line of the here-document body\<close>

lemma SafeGetCharAt_Cons: "0 \<le> i \<Longrightarrow> SafeGetCharAt (c # cs) (i + 1) = SafeGetCharAt cs i"
  by (simp add: SafeGetCharAt_def nat_add_distrib)

lemma SafeGetCharAt_0: "SafeGetCharAt (c # cs) 0 = c"
  by (simp add: SafeGetCharAt_def)

lemma SafeGetCharAt_append_right:
  "0 \<le> i \<Longrightarrow> SafeGetCharAt (xs @ ys) (int (length xs) + i) = SafeGetCharAt ys i"
  by (simp add: SafeGetCharAt_def nth_append nat_add_distrib)

lemma SafeGetCharAt_append_left:
  "0 \<le> i \<Longrightarrow> i < int (length xs) \<Longrightarrow> SafeGetCharAt (xs @ ys) i = xs ! nat i"
proof -
  assume a: "0 \<le> i" "i < int (length xs)"
  then have "nat i < length xs" by simp
  then show ?thesis using a by (simp add: SafeGetCharAt_def nth_append)
qed

lemma atEOL_Cons: "0 \<le> i \<Longrightarrow> atEOL (c # cs) (i + 1) = atEOL cs i"
  using SafeGetCharAt_Cons [of i c cs] SafeGetCharAt_Cons [of "i + 1" c cs]
  by (simp add: atEOL_def)

lemma atEOL_0:
  "atEOL (c # cs) 0 \<longleftrightarrow> c = LF \<or> (c = CR \<and> (case cs of [] \<Rightarrow> True | d # _ \<Rightarrow> d \<noteq> LF))"
  using SafeGetCharAt_Cons [of 0 c cs]
  by (auto simp: atEOL_def SafeGetCharAt_0 SafeGetCharAt_def split: list.splits)

lemma line_starts_from_mem:
  "x \<in> set (line_starts_from cs q)
   \<longleftrightarrow> (\<exists>i. 0 \<le> i \<and> i < int (length cs) \<and> x = q + i + 1 \<and> atEOL cs i)"
proof (induction cs arbitrary: q)
  case Nil
  show ?case by simp
next
  case (Cons c cs)
  have IH: "x \<in> set (line_starts_from cs (q + 1))
            \<longleftrightarrow> (\<exists>i. 0 \<le> i \<and> i < int (length cs) \<and> x = q + 1 + i + 1 \<and> atEOL cs i)"
    by (rule Cons)
  have m: "x \<in> set (line_starts_from (c # cs) q)
           \<longleftrightarrow> (atEOL (c # cs) 0 \<and> x = q + 1) \<or> x \<in> set (line_starts_from cs (q + 1))"
    by (auto simp: atEOL_0)
  show ?case
  proof
    assume "x \<in> set (line_starts_from (c # cs) q)"
    then consider "atEOL (c # cs) 0 \<and> x = q + 1"
      | i where "0 \<le> i" "i < int (length cs)" "x = q + 1 + i + 1" "atEOL cs i"
      using m IH by blast
    then show "\<exists>i. 0 \<le> i \<and> i < int (length (c # cs)) \<and> x = q + i + 1 \<and> atEOL (c # cs) i"
    proof cases
      case 1
      then have "0 \<le> (0::int) \<and> 0 < int (length (c # cs)) \<and> x = q + 0 + 1 \<and> atEOL (c # cs) 0"
        by simp
      then show ?thesis by blast
    next
      case 2
      then have "0 \<le> i + 1 \<and> i + 1 < int (length (c # cs)) \<and> x = q + (i + 1) + 1
                 \<and> atEOL (c # cs) (i + 1)"
        by (simp add: atEOL_Cons)
      then show ?thesis by blast
    qed
  next
    assume "\<exists>i. 0 \<le> i \<and> i < int (length (c # cs)) \<and> x = q + i + 1 \<and> atEOL (c # cs) i"
    then obtain i where i: "0 \<le> i" "i < int (length (c # cs))" "x = q + i + 1" "atEOL (c # cs) i"
      by blast
    show "x \<in> set (line_starts_from (c # cs) q)"
    proof (cases "i = 0")
      case True
      then show ?thesis using i m by simp
    next
      case False
      then have "0 \<le> i - 1 \<and> i - 1 < int (length cs) \<and> x = q + 1 + (i - 1) + 1 \<and> atEOL cs (i - 1)"
        using i atEOL_Cons [of "i - 1" c cs] by simp
      then have "x \<in> set (line_starts_from cs (q + 1))" using IH by blast
      then show ?thesis using m by simp
    qed
  qed
qed

lemma line_start_after_eol:
  assumes "0 \<le> p" and "p < int (length doc)"
  shows "p + 1 \<in> set (line_starts doc) \<longleftrightarrow> atEOL doc p"
proof -
  have "p + 1 \<in> set (line_starts doc) \<longleftrightarrow> p + 1 \<in> set (line_starts_from doc 0)"
    using assms by (simp add: line_starts_def)
  also have "\<dots> \<longleftrightarrow> (\<exists>i. 0 \<le> i \<and> i < int (length doc) \<and> p + 1 = 0 + i + 1 \<and> atEOL doc i)"
    by (rule line_starts_from_mem)
  also have "\<dots> \<longleftrightarrow> atEOL doc p"
    using assms by auto
  finally show ?thesis .
qed

lemma atLineEnd_char:
  assumes "line_inv doc c" and "currentPos c < endPos c"
  shows "atLineEnd c = atEOL doc (currentPos c)"
proof -
  let ?p = "currentPos c"
  have p: "0 \<le> ?p" "?p < int (length doc)" using assms by (simp_all add: line_inv_def)
  have e: "atLineEnd c = line_end_at doc ?p"
    using assms by (simp add: line_inv_def line_end_at_def)
  note st = GetLine_step [OF p(2)]
  show ?thesis
  proof (cases "line_end_at doc ?p")
    case True
    then show ?thesis using st(1) e line_start_after_eol [OF p] by simp
  next
    case False
    have "?p + 1 \<notin> set (line_starts doc)"
    proof
      assume "?p + 1 \<in> set (line_starts doc)"
      then have "GetLine doc ?p < GetLine doc (?p + 1)"
        by (rule GetLine_strict) (use p in simp_all)
      then show False using st(2) [OF False] by simp
    qed
    then show ?thesis using False e line_start_after_eol [OF p] by simp
  qed
qed


lemma line_inv_ForwardN: "line_inv doc c \<Longrightarrow> line_inv doc (ForwardN doc n c)"
  using lkeep_ForwardN [OF lkeep_refl, of doc c n] by (simp add: lkeep_def)

lemma line_inv_SetState: "line_inv doc c \<Longrightarrow> line_inv doc (SetState doc st c)"
  using lkeep_SetState [OF lkeep_refl, of doc c st] by (simp add: lkeep_def)

lemma Forward_inside:
  "currentPos c < endPos c \<Longrightarrow>
   currentPos (Forward doc c) = currentPos c + 1 \<and> endPos (Forward doc c) = endPos c
   \<and> startSeg (Forward doc c) = startSeg c"
  by (simp add: Forward_def GetNextChar_def)

lemma ForwardN_inside:
  "currentPos c + int n \<le> endPos c \<Longrightarrow>
   currentPos (ForwardN doc n c) = currentPos c + int n \<and> endPos (ForwardN doc n c) = endPos c
   \<and> startSeg (ForwardN doc n c) = startSeg c"
proof (induction n arbitrary: c)
  case 0
  then show ?case by simp
next
  case (Suc n)
  have lt: "currentPos c < endPos c" using Suc(2) by simp
  note f = Forward_inside [OF lt, of doc]
  have "currentPos (Forward doc c) + int n \<le> endPos (Forward doc c)" using f Suc(2) by simp
  then show ?case using Suc(1) [of "Forward doc c"] f by simp
qed

lemma SetState_cursor:
  "currentPos c \<le> int (length doc) \<Longrightarrow> startSeg c \<le> currentPos c \<Longrightarrow>
   currentPos (SetState doc st c) = currentPos c \<and> endPos (SetState doc st c) = endPos c
   \<and> startSeg (SetState doc st c) = currentPos c"
  by (simp add: SetState_def ColourTo_def)

lemma styles_ForwardN: "styles (ForwardN doc n c) = styles c"
  by (induction n arbitrary: c) simp_all

lemma SetState_styles:
  "currentPos c \<le> int (length doc) \<Longrightarrow> startSeg c \<le> currentPos c \<Longrightarrow>
   styles (SetState doc st c) = fill_styles (styles c) (startSeg c) (currentPos c - 1) (state c)"
  by (auto simp: SetState_def ColourTo_def)

lemma not_atEOL_char:
  "SafeGetCharAt doc p \<noteq> LF \<Longrightarrow> SafeGetCharAt doc p \<noteq> CR \<Longrightarrow> \<not> atEOL doc p"
  by (simp add: atEOL_def)

lemma skip_tabs_ForwardN:
  assumes "line_inv doc c"
    and "\<forall>i. 0 \<le> i \<and> i < int n \<longrightarrow> SafeGetCharAt doc (currentPos c + i) = TAB"
    and "currentPos c + int n < endPos c"
    and "SafeGetCharAt doc (currentPos c + int n) \<noteq> TAB"
  shows "skip_tabs doc c k = (ForwardN doc n c, k + int n)"
  using assms
proof (induction n arbitrary: c k)
  case 0
  have "ch c = SafeGetCharAt doc (currentPos c)" using 0(1,3) by (simp add: line_inv_def)
  then have "ch c \<noteq> TAB" using 0(4) by simp
  then show ?case by (subst skip_tabs.simps) simp
next
  case (Suc n)
  have lt: "currentPos c < endPos c" using Suc(4) by simp
  have c0: "SafeGetCharAt doc (currentPos c) = TAB" using Suc(3) [rule_format, of 0] by simp
  have "ch c = SafeGetCharAt doc (currentPos c)" using Suc(2) lt by (simp add: line_inv_def)
  then have t: "ch c = TAB" using c0 by simp
  have "\<not> atEOL doc (currentPos c)" by (rule not_atEOL_char) (simp_all add: c0)
  then have e: "\<not> atLineEnd c" using atLineEnd_char [OF Suc(2) lt] by simp
  have unf: "skip_tabs doc c k = skip_tabs doc (Forward doc c) (k + 1)"
    using t e by (subst skip_tabs.simps) simp
  note f = Forward_inside [OF lt, of doc]
  have a: "\<forall>i. 0 \<le> i \<and> i < int n \<longrightarrow> SafeGetCharAt doc (currentPos (Forward doc c) + i) = TAB"
  proof (intro allI impI)
    fix i assume "0 \<le> i \<and> i < int n"
    then have "0 \<le> i + 1 \<and> i + 1 < int (Suc n)" by simp
    then have g: "SafeGetCharAt doc (currentPos c + (i + 1)) = TAB" using Suc(3) by blast
    have eq: "currentPos (Forward doc c) + i = currentPos c + (i + 1)" using f by simp
    show "SafeGetCharAt doc (currentPos (Forward doc c) + i) = TAB" unfolding eq by (rule g)
  qed
  have b: "currentPos (Forward doc c) + int n < endPos (Forward doc c)" using f Suc(4) by simp
  have eq: "currentPos (Forward doc c) + int n = currentPos c + int (Suc n)" using f by simp
  have d: "SafeGetCharAt doc (currentPos (Forward doc c) + int n) \<noteq> TAB"
    unfolding eq by (rule Suc(5))
  have "skip_tabs doc (Forward doc c) (k + 1) = (ForwardN doc n (Forward doc c), k + 1 + int n)"
    by (rule Suc(1) [OF line_inv_Forward [OF Suc(2)] a b d])
  then show ?case unfolding unf by simp
qed

lemma to_line_end_ForwardN:
  assumes "line_inv doc c"
    and "\<forall>i. 0 \<le> i \<and> i < int m \<longrightarrow> \<not> atEOL doc (currentPos c + i)"
    and "currentPos c + int m < endPos c"
    and "atEOL doc (currentPos c + int m)"
  shows "to_line_end doc c = ForwardN doc m c"
  using assms
proof (induction m arbitrary: c)
  case 0
  have lt: "currentPos c < endPos c" using 0(3) by simp
  have "atLineEnd c" using atLineEnd_char [OF 0(1) lt] 0(4) by simp
  then show ?case by (subst to_line_end.simps) simp
next
  case (Suc m)
  have lt: "currentPos c < endPos c" using Suc(4) by simp
  have "\<not> atEOL doc (currentPos c)" using Suc(3) [rule_format, of 0] by simp
  then have e: "\<not> atLineEnd c" using atLineEnd_char [OF Suc(2) lt] by simp
  have unf: "to_line_end doc c = to_line_end doc (Forward doc c)"
    using e by (subst to_line_end.simps) simp
  note f = Forward_inside [OF lt, of doc]
  have a: "\<forall>i. 0 \<le> i \<and> i < int m \<longrightarrow> \<not> atEOL doc (currentPos (Forward doc c) + i)"
  proof (intro allI impI)
    fix i assume "0 \<le> i \<and> i < int m"
    then have "0 \<le> i + 1 \<and> i + 1 < int (Suc m)" by simp
    then have g: "\<not> atEOL doc (currentPos c + (i + 1))" using Suc(3) by blast
    have eq: "currentPos (Forward doc c) + i = currentPos c + (i + 1)" using f by simp
    show "\<not> atEOL doc (currentPos (Forward doc c) + i)" unfolding eq by (rule g)
  qed
  have b: "currentPos (Forward doc c) + int m < endPos (Forward doc c)" using f Suc(4) by simp
  have eq: "currentPos (Forward doc c) + int m = currentPos c + int (Suc m)" using f by simp
  have d: "atEOL doc (currentPos (Forward doc c) + int m)"
    unfolding eq by (rule Suc(5))
  have "to_line_end doc (Forward doc c) = ForwardN doc m (Forward doc c)"
    by (rule Suc(1) [OF line_inv_Forward [OF Suc(2)] a b d])
  then show ?case unfolding unf by simp
qed

lemma c_str_idem: "c_str (c_str s) = c_str s"
  by (simp add: c_str_def)

lemma c_str_no_NUL: "NUL \<notin> set s \<Longrightarrow> c_str s = s"
  by (auto simp: c_str_def takeWhile_eq_all_conv)

lemma c_str_set: "NUL \<notin> set (c_str s)"
  by (auto simp: c_str_def dest: set_takeWhileD)

lemma case_HERE_Q_tab_line:
  assumes inv: "line_inv doc (sc L)" and ls: "atLineStart (sc L)"
    and doc: "doc = pre @ replicate n TAB @ d @ tm @ rest"
    and p: "currentPos (sc L) = int (length pre)"
    and n: "0 < n"
    and d: "c_str (Delimiter (HereDoc L)) = d" "d \<noteq> []" "hd d \<noteq> TAB" "LF \<notin> set d"
      "CR \<notin> set d" "length d < 255"
    and te: "line_ends tm rest"
    and range: "int (length pre + n + length d + length tm) \<le> endPos (sc L)"
  shows "state (sc (case_HERE_Q doc L))
         = (if Indent (HereDoc L) then SCE_SH_DEFAULT else SCE_SH_HERE_Q)"
    and "currentPos (sc (case_HERE_Q doc L)) = int (length pre + n + length d + length tm) - 1"
    and "\<forall>i. int (length pre) \<le> int i \<and> i < length (styles (sc L))
             \<and> int i < (if Indent (HereDoc L)
                         then int (length pre + n + length d + length tm) - 1
                         else int (length pre + n))
           \<longrightarrow> styles (sc (case_HERE_Q doc L)) ! i = SCE_SH_HERE_Q"
proof -
  let ?p = "int (length pre)"
  define m where "m = length d + length tm - 1"
  have tl: "length tm = 1 \<or> length tm = 2" using te by (auto simp: line_ends_def)
  have chr: "SafeGetCharAt doc (?p + i) = SafeGetCharAt (replicate n TAB @ d @ tm @ rest) i"
    if "0 \<le> i" for i
    unfolding doc using that by (rule SafeGetCharAt_append_right)
  have tabs: "SafeGetCharAt doc (?p + i) = TAB" if "0 \<le> i" "i < int n" for i
    using that by (simp add: chr SafeGetCharAt_append_left)
  have chr2: "SafeGetCharAt doc (?p + int n + i) = SafeGetCharAt (d @ tm @ rest) i"
    if "0 \<le> i" for i
  proof -
    have "SafeGetCharAt doc (?p + (int n + i)) = SafeGetCharAt (replicate n TAB @ d @ tm @ rest) (int n + i)"
      using that by (simp add: chr)
    also have "\<dots> = SafeGetCharAt (d @ tm @ rest) i"
      using SafeGetCharAt_append_right [of i "replicate n TAB" "d @ tm @ rest"] that by simp
    finally show ?thesis by (simp add: add.assoc)
  qed
  have dch: "SafeGetCharAt doc (?p + int n + i) = d ! nat i" if "0 \<le> i" "i < int (length d)" for i
    using that by (simp add: chr2 SafeGetCharAt_append_left)
  have chr3: "SafeGetCharAt doc (?p + int n + int (length d) + i) = SafeGetCharAt (tm @ rest) i"
    if "0 \<le> i" for i
  proof -
    have "SafeGetCharAt doc (?p + int n + (int (length d) + i)) = SafeGetCharAt (d @ tm @ rest) (int (length d) + i)"
      using that by (simp add: chr2)
    also have "\<dots> = SafeGetCharAt (tm @ rest) i"
      using that by (rule SafeGetCharAt_append_right)
    finally show ?thesis by (simp add: add.assoc)
  qed
  have d0: "SafeGetCharAt doc (?p + int n) \<noteq> TAB"
    using dch [of 0] d(2,3) by (simp add: hd_conv_nth)
  have dne: "\<not> atEOL doc (?p + int n + i)" if "0 \<le> i" "i < int (length d)" for i
  proof (rule not_atEOL_char)
    have "d ! nat i \<in> set d" using that by simp
    then show "SafeGetCharAt doc (?p + int n + i) \<noteq> LF" "SafeGetCharAt doc (?p + int n + i) \<noteq> CR"
      using dch [OF that] d(4,5) by auto
  qed
  have t0: "SafeGetCharAt doc (?p + int n + int (length d)) = hd tm"
    using chr3 [of 0] tl by (cases tm) (simp_all add: SafeGetCharAt_def)
  have t1: "SafeGetCharAt doc (?p + int n + int (length d) + 1) = SafeGetCharAt (tm @ rest) 1"
    using chr3 [of 1] by simp
  have noeol: "\<not> atEOL doc (?p + int n + i)" if "0 \<le> i" "i < int m" for i
  proof (cases "i < int (length d)")
    case True
    then show ?thesis using dne that by simp
  next
    case False
    then have i: "i = int (length d)" and t2: "tm = [CR, LF]"
      using that tl te by (auto simp: m_def line_ends_def)
    show ?thesis
      unfolding i using t0 t1 t2 by (simp add: atEOL_def SafeGetCharAt_def)
  qed
  have eol: "atEOL doc (?p + int n + int m)"
  proof -
    consider "tm = [LF]" | "tm = [CR, LF]" | "tm = [CR]" "rest = [] \<or> hd rest \<noteq> LF"
      using te by (auto simp: line_ends_def)
    then show ?thesis
    proof cases
      case 1
      then show ?thesis using t0 by (simp add: m_def atEOL_def)
    next
      case 2
      then have e: "?p + int n + int m = ?p + int n + int (length d) + 1"
        using d(2) by (simp add: m_def)
      have "SafeGetCharAt (tm @ rest) 1 = LF" using 2 by (simp add: SafeGetCharAt_def)
      then have "SafeGetCharAt doc (?p + int n + int (length d) + 1) = LF" using t1 by simp
      then show ?thesis unfolding e by (simp add: atEOL_def)
    next
      case 3
      then have "SafeGetCharAt (tm @ rest) 1 \<noteq> LF"
        by (cases rest) (simp_all add: SafeGetCharAt_def)
      then show ?thesis using t0 t1 3 by (simp add: m_def atEOL_def)
    qed
  qed
  have len: "int (length doc) = ?p + int n + int (length d) + int (length tm) + int (length rest)"
    by (simp add: doc)
  have pm: "?p + int n + int m + 1 = int (length pre + n + length d + length tm)"
    using tl by (auto simp: m_def)
  let ?c1 = "SetState doc SCE_SH_HERE_Q (sc L)"
  have i1: "line_inv doc ?c1" by (rule line_inv_SetState [OF inv])
  have s0: "startSeg (sc L) \<le> currentPos (sc L)" using inv by (simp add: line_inv_def)
  have pl: "currentPos (sc L) \<le> int (length doc)" using p len by simp
  note c1 = SetState_cursor [OF pl s0, of SCE_SH_HERE_Q]
  have e1: "endPos ?c1 = endPos (sc L)" "currentPos ?c1 = ?p" using c1 p by simp_all
  have sk: "skip_tabs doc ?c1 0 = (ForwardN doc n ?c1, 0 + int n)"
  proof (rule skip_tabs_ForwardN [OF i1])
    show "\<forall>i. 0 \<le> i \<and> i < int n \<longrightarrow> SafeGetCharAt doc (currentPos ?c1 + i) = TAB"
      using tabs e1 by simp
    show "currentPos ?c1 + int n < endPos ?c1" using e1 range d(2) tl by auto
    show "SafeGetCharAt doc (currentPos ?c1 + int n) \<noteq> TAB" using d0 e1 by simp
  qed
  let ?c2 = "ForwardN doc n ?c1"
  have "currentPos ?c1 + int n \<le> endPos ?c1" using e1 range by simp
  note c2 = ForwardN_inside [OF this, of doc]
  have i2: "line_inv doc ?c2" by (rule line_inv_ForwardN [OF i1])
  let ?c3 = "SetState doc SCE_SH_HERE_Q ?c2"
  have i3: "line_inv doc ?c3" by (rule line_inv_SetState [OF i2])
  have "currentPos ?c2 \<le> int (length doc)" using c2 e1 len by simp
  moreover have "startSeg ?c2 \<le> currentPos ?c2" using i2 by (simp add: line_inv_def)
  ultimately have c3: "currentPos ?c3 = ?p + int n" "endPos ?c3 = endPos (sc L)"
    "startSeg ?c3 = ?p + int n"
    using SetState_cursor [of ?c2 doc SCE_SH_HERE_Q] c2 e1 by simp_all
  have mr: "currentPos ?c3 + int m < endPos ?c3" using c3 range pm by simp
  have tle: "to_line_end doc ?c3 = ForwardN doc m ?c3"
  proof (rule to_line_end_ForwardN [OF i3 _ mr])
    show "\<forall>i. 0 \<le> i \<and> i < int m \<longrightarrow> \<not> atEOL doc (currentPos ?c3 + i)"
      using noeol c3 by simp
    show "atEOL doc (currentPos ?c3 + int m)" using eol c3 by simp
  qed
  let ?c4 = "ForwardN doc m ?c3"
  have "currentPos ?c3 + int m \<le> endPos ?c3" using mr by simp
  note c4' = ForwardN_inside [OF this, of doc]
  have c4: "currentPos ?c4 = ?p + int n + int m" "startSeg ?c4 = ?p + int n"
    "state ?c4 = SCE_SH_HERE_Q"
    using c4' c3 by simp_all
  have m0: "0 < m" using d(2) tl by (auto simp: m_def)
  have lc: "LengthCurrent ?c4 \<noteq> 0" using c4 m0 by (simp add: LengthCurrent_def)
  have dr: "drop (nat (?p + int n)) doc = d @ tm @ rest"
    by (simp add: doc nat_add_distrib)
  have gc: "GetCurrent doc ?c4 (nat HERE_DELIM_MAX) = take m (d @ tm)"
  proof -
    have "GetCurrent doc ?c4 (nat HERE_DELIM_MAX) = take 255 (take m (d @ tm @ rest))"
      using c4 dr by (simp add: GetCurrent_def)
    also have "take m (d @ tm @ rest) = take m (d @ tm)"
      using tl by (auto simp: m_def)
    also have "take 255 (take m (d @ tm)) = take m (d @ tm)"
    proof -
      have "m \<le> 255" using d(6) tl by (auto simp: m_def)
      then have "min 255 m = m" by simp
      then show ?thesis by (simp only: take_take)
    qed
    finally show ?thesis .
  qed
  have nn: "NUL \<notin> set d" using c_str_set [of "Delimiter (HereDoc L)"] d(1) by simp
  have sc: "strip_CR (take m (d @ tm)) = d"
  proof -
    consider "tm = [LF]" | "tm = [CR, LF]" | "tm = [CR]"
      using te by (auto simp: line_ends_def)
    then show ?thesis
    proof cases
      case 1
      then have "take m (d @ tm) = d" by (simp add: m_def)
      moreover have "last d \<noteq> CR" using d(5) last_in_set [OF d(2)] by metis
      ultimately show ?thesis using nn d(2) by (simp add: strip_CR_def c_str_no_NUL Let_def)
    next
      case 2
      then have "take m (d @ tm) = d @ [CR]" by (simp add: m_def)
      moreover have "NUL \<notin> set (d @ [CR])" using nn by simp
      ultimately show ?thesis by (simp add: strip_CR_def c_str_no_NUL Let_def)
    next
      case 3
      then have "take m (d @ tm) = d" by (simp add: m_def)
      moreover have "last d \<noteq> CR" using d(5) last_in_set [OF d(2)] by metis
      ultimately show ?thesis using nn d(2) by (simp add: strip_CR_def c_str_no_NUL Let_def)
    qed
  qed
  have eq: "strcmp_eq (Delimiter (HereDoc L)) (strip_CR (GetCurrent doc ?c4 (nat HERE_DELIM_MAX)))"
    unfolding gc sc using d(1) nn by (simp add: strcmp_eq_def c_str_no_NUL)
  have r: "case_HERE_Q doc L
           = (if Indent (HereDoc L) then L\<lparr>sc := SetState doc SCE_SH_DEFAULT ?c4\<rparr>
              else L\<lparr>sc := ?c4\<rparr>)"
    using ls sk tle lc eq n by (simp add: case_HERE_Q_def Let_def)
  show "state (sc (case_HERE_Q doc L))
         = (if Indent (HereDoc L) then SCE_SH_DEFAULT else SCE_SH_HERE_Q)"
    unfolding r using c4(3) by simp
  have "currentPos ?c4 \<le> int (length doc)" using c4 len pm tl by auto
  moreover have "startSeg ?c4 \<le> currentPos ?c4" using c4 by simp
  ultimately have "currentPos (SetState doc SCE_SH_DEFAULT ?c4) = currentPos ?c4"
    using SetState_cursor [of ?c4 doc SCE_SH_DEFAULT] by simp
  then show "currentPos (sc (case_HERE_Q doc L)) = int (length pre + n + length d + length tm) - 1"
    unfolding r using c4(1) pm by simp
  have st2: "styles ?c2 = styles ?c1" by (rule styles_ForwardN)
  have st3: "styles ?c3 = fill_styles (styles ?c1) ?p (?p + int n - 1) SCE_SH_HERE_Q"
    using SetState_styles [OF \<open>currentPos ?c2 \<le> int (length doc)\<close>
        \<open>startSeg ?c2 \<le> currentPos ?c2\<close>, of SCE_SH_HERE_Q] c2 c1 p st2
    by simp
  have st4: "styles ?c4 = styles ?c3" by (rule styles_ForwardN)
  have l1: "length (styles ?c1) = length (styles (sc L))"
    using SetState_styles [OF pl s0, of SCE_SH_HERE_Q] by simp
  have tabs_styled: "styles ?c4 ! i = SCE_SH_HERE_Q"
    if "?p \<le> int i" "int i < ?p + int n" "i < length (styles (sc L))" for i
    unfolding st4 st3 using that l1 by (simp add: nth_fill_styles)
  have st5: "styles (SetState doc SCE_SH_DEFAULT ?c4)
             = fill_styles (styles ?c4) (?p + int n) (?p + int n + int m - 1) SCE_SH_HERE_Q"
    using SetState_styles [OF \<open>currentPos ?c4 \<le> int (length doc)\<close>
        \<open>startSeg ?c4 \<le> currentPos ?c4\<close>, of SCE_SH_DEFAULT] c4
    by simp
  have l4: "length (styles ?c4) = length (styles (sc L))"
    unfolding st4 st3 using l1 by simp
  show "\<forall>i. int (length pre) \<le> int i \<and> i < length (styles (sc L))
             \<and> int i < (if Indent (HereDoc L)
                         then int (length pre + n + length d + length tm) - 1
                         else int (length pre + n))
           \<longrightarrow> styles (sc (case_HERE_Q doc L)) ! i = SCE_SH_HERE_Q"
  proof (intro allI impI)
    fix i
    assume a: "int (length pre) \<le> int i \<and> i < length (styles (sc L))
             \<and> int i < (if Indent (HereDoc L)
                         then int (length pre + n + length d + length tm) - 1
                         else int (length pre + n))"
    show "styles (sc (case_HERE_Q doc L)) ! i = SCE_SH_HERE_Q"
    proof (cases "Indent (HereDoc L)")
      case False
      then show ?thesis unfolding r using a tabs_styled [of i] by simp
    next
      case True
      then have b: "int i < ?p + int n + int m" using a pm by simp
      show ?thesis
      proof (cases "int i < ?p + int n")
        case True
        then show ?thesis
          unfolding r using \<open>Indent (HereDoc L)\<close> a tabs_styled [of i] l4
          by (simp add: st5 nth_fill_styles)
      next
        case False
        then show ?thesis
          unfolding r using \<open>Indent (HereDoc L)\<close> a b l4
          by (simp add: st5 nth_fill_styles)
      qed
    qed
  qed
qed

lemma reach_endPos: "reach doc kw L0 L \<Longrightarrow> endPos (sc L) = endPos (sc L0)"
proof (induction rule: reach.induct)
  case reach_init
  show ?case by simp
next
  case (reach_step L)
  have "endPos (sc (loop_step doc kw L)) = endPos (sc L)"
    using adv_loop_body [of L doc kw]
    by (simp add: loop_step_def Let_def adv_def Forward_def GetNextChar_def)
  then show ?case using reach_step(3) by simp
qed

lemma pass_start_inv:
  "startPos + len \<le> int (length doc) \<Longrightarrow> line_inv doc (sc (pass_start doc startPos len st ls))"
  unfolding pass_start_def lexer_init_def using LineStart_nonneg
  by (simp add: line_inv_init restart_pos_def Let_def)

lemma pass_start_endPos: "endPos (sc (pass_start doc startPos len st ls)) = startPos + len"
  by (simp add: pass_start_def lexer_init_def StyleContext_init_def GetNextChar_def)

section \<open>The glob scan (C7)\<close>

text \<open>What a scan that answers \<open>n\<close> has seen between the offsets \<open>sLen\<close> and \<open>n\<close> from the
  cursor: no whitespace; a quote only in the \<^verbatim>\<open>(#\<close> case (\<open>hash = 2\<close>, or the scan began with
  a hash sign); and a closing parenthesis at offset \<open>n\<close>.\<close>

definition scan_ok :: "string \<Rightarrow> StyleContext \<Rightarrow> int \<Rightarrow> int \<Rightarrow> int \<Rightarrow> bool" where
  "scan_ok doc c sLen hash n =
     (sLen < n
      \<and> (\<forall>k. sLen < k \<and> k \<le> n \<longrightarrow> \<not> IsASpace (SafeGetCharAt doc (currentPos c + k)))
      \<and> ((\<exists>k. sLen < k \<and> k \<le> n
             \<and> (SafeGetCharAt doc (currentPos c + k) = SQUOTE
                  \<or> SafeGetCharAt doc (currentPos c + k) = DQUOTE))
          \<longrightarrow> hash = 2 \<or> (hash = 0 \<and> sLen = 0 \<and> SafeGetCharAt doc (currentPos c + 1) = CHR ''#''))
      \<and> SafeGetCharAt doc (currentPos c + n) = CHR '')'')"

text \<open>The characters of the offsets 1 to \<open>k\<close> from the cursor, in the order the scan reads
  them.\<close>

definition scanned :: "string \<Rightarrow> StyleContext \<Rightarrow> int \<Rightarrow> string" where
  "scanned doc c k = map (\<lambda>j. SafeGetCharAt doc (currentPos c + j)) [1..k]"

text \<open>Opening minus closing parentheses of a text: \<^verbatim>\<open>pCount\<close> after the scan has read it.\<close>

definition paren_depth :: "string \<Rightarrow> int" where
  "paren_depth xs = int (count_list xs (CHR ''('')) - int (count_list xs (CHR '')''))"

text \<open>\<^verbatim>\<open>hash\<close> after the scan has read a text: 0 with no hash sign in it, 2 when its first
  character is a hash sign (the \<^verbatim>\<open>(#\<close> case), 1 otherwise.\<close>

definition hash_code :: "string \<Rightarrow> int" where
  "hash_code xs = (if CHR ''#'' \<notin> set xs then 0 else if hd xs = CHR ''#'' then 2 else 1)"

text \<open>The scan goes on after the character at offset \<open>j\<close>: it is not the end of the document
  and not whitespace, a quote only in the \<^verbatim>\<open>(#\<close> case, and a closing parenthesis only when an
  open one is left to match it.  The scan meets the character at offset \<open>n\<close> when it goes on
  after every character before it.\<close>

definition passes :: "string \<Rightarrow> StyleContext \<Rightarrow> int \<Rightarrow> bool" where
  "passes doc c j =
     (let x = SafeGetCharAt doc (currentPos c + j) in
      x \<noteq> NUL \<and> \<not> IsASpace x
      \<and> (x = SQUOTE \<or> x = DQUOTE \<longrightarrow> 1 < j \<and> SafeGetCharAt doc (currentPos c + 1) = CHR ''#'')
      \<and> (x = CHR '')'' \<longrightarrow> 0 < paren_depth (scanned doc c (j - 1))))"

definition scan_reaches :: "string \<Rightarrow> StyleContext \<Rightarrow> int \<Rightarrow> bool" where
  "scan_reaches doc c n = (\<forall>j \<in> set [1..n - 1]. passes doc c j)"

lemma GlobScan_loop_step:
  "GlobScan_loop doc c sLen pCount hash =
     (let x = fst (GetRelativeCharacter doc (sLen + 1) c) in
        if x \<noteq> NUL then
          (if IsASpace x then (0, c)
           else if x = SQUOTE \<or> x = DQUOTE then
             (if hash \<noteq> 2 then (0, c) else GlobScan_loop doc c (sLen + 1) pCount hash)
           else if x = CHR ''#'' \<and> hash = 0 then
             GlobScan_loop doc c (sLen + 1) pCount (if sLen + 1 = 1 then 2 else 1)
           else if x = CHR ''('' then GlobScan_loop doc c (sLen + 1) (pCount + 1) hash
           else if x = CHR '')'' then
             (if pCount = 0 then (if hash \<noteq> 0 then (sLen + 1, c) else (0, c))
              else GlobScan_loop doc c (sLen + 1) (pCount - 1) hash)
           else GlobScan_loop doc c (sLen + 1) pCount hash)
        else (0, c))"
proof -
  obtain x where eq: "GetRelativeCharacter doc (sLen + 1) c = (x, c)"
    by (cases "sLen + 1 = 0") (simp_all add: GetRelativeCharacter_def)
  show ?thesis
    by (subst GlobScan_loop.simps) (simp add: eq)
qed

lemma IsASpace_not_NUL: "IsASpace x \<Longrightarrow> x \<noteq> NUL"
  by (auto simp: IsASpace_def Contains_def)

lemma GetRelativeCharacter_fst:
  "n \<noteq> 0 \<Longrightarrow> fst (GetRelativeCharacter doc n c) = SafeGetCharAt doc (currentPos c + n)"
  by (simp add: GetRelativeCharacter_def)

lemma scanned_step:
  "0 \<le> k \<Longrightarrow> scanned doc c (k + 1) = scanned doc c k @ [SafeGetCharAt doc (currentPos c + (k + 1))]"
  by (simp add: scanned_def upto_rec2)

lemma scanned_0 [simp]: "scanned doc c 0 = []"
  by (simp add: scanned_def)

lemma scanned_empty: "0 \<le> k \<Longrightarrow> scanned doc c k = [] \<longleftrightarrow> k = 0"
  by (auto simp: scanned_def)

lemma paren_depth_step:
  "paren_depth (xs @ [x]) = paren_depth xs + (if x = CHR ''('' then 1 else if x = CHR '')'' then - 1 else 0)"
  by (simp add: paren_depth_def)

lemma hash_code_step:
  "hash_code (xs @ [x]) =
     (if hash_code xs = 0 \<and> x = CHR ''#'' then (if xs = [] then 2 else 1) else hash_code xs)"
  by (cases xs) (auto simp: hash_code_def)

lemma hash_code_0: "hash_code xs = 0 \<longleftrightarrow> CHR ''#'' \<notin> set xs"
  by (simp add: hash_code_def)

lemma hash_code_2:
  assumes "0 \<le> k"
  shows "hash_code (scanned doc c k) = 2 \<longleftrightarrow> 0 < k \<and> SafeGetCharAt doc (currentPos c + 1) = CHR ''#''"
proof (cases "k = 0")
  case True
  then show ?thesis by (simp add: hash_code_def)
next
  case False
  then have "[1..k] = 1 # [2..k]" using assms by (simp add: upto_rec1)
  then have "scanned doc c k = SafeGetCharAt doc (currentPos c + 1) # map (\<lambda>j. SafeGetCharAt doc (currentPos c + j)) [2..k]"
    by (simp add: scanned_def)
  then show ?thesis using False assms by (auto simp: hash_code_def)
qed

lemma GlobScan_loop_pass:
  assumes "0 \<le> sLen" and "passes doc c (sLen + 1)"
  shows "GlobScan_loop doc c sLen (paren_depth (scanned doc c sLen)) (hash_code (scanned doc c sLen))
         = GlobScan_loop doc c (sLen + 1) (paren_depth (scanned doc c (sLen + 1)))
             (hash_code (scanned doc c (sLen + 1)))"
proof -
  define x where "x = SafeGetCharAt doc (currentPos c + (sLen + 1))"
  have fx: "fst (GetRelativeCharacter doc (sLen + 1) c) = x"
    using assms(1) by (simp add: GetRelativeCharacter_fst x_def)
  have p: "x \<noteq> NUL" "\<not> IsASpace x"
    "x = SQUOTE \<or> x = DQUOTE \<Longrightarrow> hash_code (scanned doc c sLen) = 2"
    "x = CHR '')'' \<Longrightarrow> paren_depth (scanned doc c sLen) \<noteq> 0"
    using assms hash_code_2 [OF assms(1), of doc c]
    by (auto simp: passes_def Let_def x_def)
  have st: "scanned doc c (sLen + 1) = scanned doc c sLen @ [x]"
    using assms(1) by (simp add: scanned_step x_def)
  have e: "scanned doc c sLen = [] \<longleftrightarrow> sLen + 1 = 1"
    using scanned_empty [OF assms(1), of doc c] by simp
  have q: "x = SQUOTE \<or> x = DQUOTE \<Longrightarrow> x \<noteq> CHR ''#'' \<and> x \<noteq> CHR ''('' \<and> x \<noteq> CHR '')''"
    by auto
  show ?thesis
    unfolding st paren_depth_step hash_code_step e
    by (subst GlobScan_loop_step) (use p q in \<open>auto simp: fx Let_def\<close>)
qed

lemma GlobScan_loop_reaches:
  assumes "0 \<le> sLen" and "\<forall>j. sLen < j \<and> j \<le> sLen + int k \<longrightarrow> passes doc c j"
  shows "GlobScan_loop doc c sLen (paren_depth (scanned doc c sLen)) (hash_code (scanned doc c sLen))
         = GlobScan_loop doc c (sLen + int k) (paren_depth (scanned doc c (sLen + int k)))
             (hash_code (scanned doc c (sLen + int k)))"
  using assms
proof (induction k arbitrary: sLen)
  case 0
  then show ?case by simp
next
  case (Suc k)
  have p: "passes doc c (sLen + 1)" using Suc(3) by simp
  have "\<forall>j. sLen + 1 < j \<and> j \<le> sLen + 1 + int k \<longrightarrow> passes doc c j"
    using Suc(3) by simp
  then have "GlobScan_loop doc c (sLen + 1) (paren_depth (scanned doc c (sLen + 1)))
               (hash_code (scanned doc c (sLen + 1)))
             = GlobScan_loop doc c (sLen + 1 + int k) (paren_depth (scanned doc c (sLen + 1 + int k)))
               (hash_code (scanned doc c (sLen + 1 + int k)))"
    using Suc(1) [of "sLen + 1"] Suc(2) by simp
  moreover have "sLen + 1 + int k = sLen + int (Suc k)" by simp
  ultimately show ?case
    using GlobScan_loop_pass [OF Suc(2) p] by simp
qed

lemma GlobScan_reaches:
  assumes "1 \<le> n" and "scan_reaches doc c n"
  shows "GlobScan doc c
         = GlobScan_loop doc c (n - 1) (paren_depth (scanned doc c (n - 1)))
             (hash_code (scanned doc c (n - 1)))"
proof -
  have "\<forall>j. 0 < j \<and> j \<le> 0 + int (nat (n - 1)) \<longrightarrow> passes doc c j"
    using assms by (auto simp: scan_reaches_def)
  then have "GlobScan_loop doc c 0 (paren_depth (scanned doc c 0)) (hash_code (scanned doc c 0))
        = GlobScan_loop doc c (0 + int (nat (n - 1)))
            (paren_depth (scanned doc c (0 + int (nat (n - 1)))))
            (hash_code (scanned doc c (0 + int (nat (n - 1)))))"
    by (intro GlobScan_loop_reaches) simp_all
  then show ?thesis
    using assms(1) by (simp add: GlobScan_def paren_depth_def hash_code_def)
qed

lemma GlobScan_meets:
  assumes "1 \<le> n" and "scan_reaches doc c n"
  shows "GlobScan doc c =
     (let x = SafeGetCharAt doc (currentPos c + n);
          P = paren_depth (scanned doc c (n - 1));
          H = hash_code (scanned doc c (n - 1)) in
        if x \<noteq> NUL then
          (if IsASpace x then (0, c)
           else if x = SQUOTE \<or> x = DQUOTE then
             (if H \<noteq> 2 then (0, c) else GlobScan_loop doc c n P H)
           else if x = CHR ''#'' \<and> H = 0 then
             GlobScan_loop doc c n P (if n = 1 then 2 else 1)
           else if x = CHR ''('' then GlobScan_loop doc c n (P + 1) H
           else if x = CHR '')'' then
             (if P = 0 then (if H \<noteq> 0 then (n, c) else (0, c))
              else GlobScan_loop doc c n (P - 1) H)
           else GlobScan_loop doc c n P H)
        else (0, c))"
proof -
  have fx: "fst (GetRelativeCharacter doc n c) = SafeGetCharAt doc (currentPos c + n)"
    using assms(1) by (simp add: GetRelativeCharacter_fst)
  have n: "n - 1 + 1 = n" by simp
  show ?thesis
    unfolding GlobScan_reaches [OF assms]
    apply (subst GlobScan_loop_step [of doc c "n - 1" "paren_depth (scanned doc c (n - 1))"
        "hash_code (scanned doc c (n - 1))"])
    apply (simp only: n fx Let_def)
    done
qed

lemma scan_ok_stop:
  assumes "SafeGetCharAt doc (currentPos c + (sLen + 1)) = CHR '')''"
  shows "scan_ok doc c sLen hash (sLen + 1)"
proof -
  have ns: "\<not> IsASpace (CHR '')'')" by (simp add: IsASpace_def Contains_def)
  have a: "\<not> IsASpace (SafeGetCharAt doc (currentPos c + k))
           \<and> SafeGetCharAt doc (currentPos c + k) \<noteq> SQUOTE
           \<and> SafeGetCharAt doc (currentPos c + k) \<noteq> DQUOTE"
    if "sLen < k \<and> k \<le> sLen + 1" for k
  proof -
    have "k = sLen + 1" using that by arith
    then show ?thesis using assms ns by simp
  qed
  show ?thesis
    unfolding scan_ok_def using a assms by auto
qed

lemma scan_ok_step:
  assumes "scan_ok doc c (sLen + 1) h n" and "0 \<le> sLen"
    and "\<not> IsASpace (SafeGetCharAt doc (currentPos c + (sLen + 1)))"
    and "h = hash \<or> (hash = 0 \<and> SafeGetCharAt doc (currentPos c + (sLen + 1)) = CHR ''#''
                       \<and> h = (if sLen + 1 = 1 then 2 else 1))"
    and "SafeGetCharAt doc (currentPos c + (sLen + 1)) = SQUOTE
         \<or> SafeGetCharAt doc (currentPos c + (sLen + 1)) = DQUOTE \<Longrightarrow> hash = 2"
  shows "scan_ok doc c sLen hash n"
proof -
  have split: "\<And>k. sLen < k \<Longrightarrow> k = sLen + 1 \<or> sLen + 1 < k" by arith
  show ?thesis
    unfolding scan_ok_def
  proof (intro conjI allI impI)
    show "sLen < n" using assms(1) by (simp add: scan_ok_def)
  next
    fix k assume "sLen < k \<and> k \<le> n"
    then show "\<not> IsASpace (SafeGetCharAt doc (currentPos c + k))"
      using assms(1,3) split [of k] by (auto simp: scan_ok_def)
  next
    assume "\<exists>k. sLen < k \<and> k \<le> n
             \<and> (SafeGetCharAt doc (currentPos c + k) = SQUOTE
                  \<or> SafeGetCharAt doc (currentPos c + k) = DQUOTE)"
    then obtain k where k: "sLen < k" "k \<le> n"
      "SafeGetCharAt doc (currentPos c + k) = SQUOTE \<or> SafeGetCharAt doc (currentPos c + k) = DQUOTE"
      by blast
    show "hash = 2 \<or> (hash = 0 \<and> sLen = 0 \<and> SafeGetCharAt doc (currentPos c + 1) = CHR ''#'')"
    proof (cases "k = sLen + 1")
      case True
      then show ?thesis using k assms(5) by simp
    next
      case False
      then have "sLen + 1 < k" using k(1) by arith
      then have "h = 2" using assms(1,2) k by (auto simp: scan_ok_def)
      then show ?thesis using assms(4) by (auto split: if_splits)
    qed
  next
    show "SafeGetCharAt doc (currentPos c + n) = CHR '')''" using assms(1) by (simp add: scan_ok_def)
  qed
qed

lemma GlobScan_loop_result:
  "fst (GlobScan_loop doc c sLen pCount hash) \<noteq> 0 \<Longrightarrow> 0 \<le> sLen \<Longrightarrow>
   scan_ok doc c sLen hash (fst (GlobScan_loop doc c sLen pCount hash))"
proof (induction doc c sLen pCount hash rule: GlobScan_loop.induct)
  case (1 doc c sLen pCount hash)
  define x where "x = SafeGetCharAt doc (currentPos c + (sLen + 1))"
  have eq: "GetRelativeCharacter doc (sLen + 1) c = (x, c)"
    using 1(7) by (simp add: GetRelativeCharacter_def x_def)
  have fx: "fst (GetRelativeCharacter doc (sLen + 1) c) = x" by (simp add: eq)
  note IH = 1(1-5) [OF eq [symmetric]]
  let ?r = "GlobScan_loop doc c sLen pCount hash"
  have r: "?r =
        (if x \<noteq> NUL then
          (if IsASpace x then (0, c)
           else if x = SQUOTE \<or> x = DQUOTE then
             (if hash \<noteq> 2 then (0, c) else GlobScan_loop doc c (sLen + 1) pCount hash)
           else if x = CHR ''#'' \<and> hash = 0 then
             GlobScan_loop doc c (sLen + 1) pCount (if sLen + 1 = 1 then 2 else 1)
           else if x = CHR ''('' then GlobScan_loop doc c (sLen + 1) (pCount + 1) hash
           else if x = CHR '')'' then
             (if pCount = 0 then (if hash \<noteq> 0 then (sLen + 1, c) else (0, c))
              else GlobScan_loop doc c (sLen + 1) (pCount - 1) hash)
           else GlobScan_loop doc c (sLen + 1) pCount hash)
        else (0, c))"
    by (subst GlobScan_loop_step) (simp only: fx Let_def)
  have nz: "fst ?r \<noteq> 0" by fact
  have pos: "0 \<le> sLen + 1" using 1(7) by simp
  have x0: "x \<noteq> NUL" using r nz by (cases "x = NUL") simp_all
  have xs: "\<not> IsASpace x" using r nz x0 by (cases "IsASpace x") simp_all
  show ?case
  proof (cases "x = SQUOTE \<or> x = DQUOTE")
    case True
    have h2: "hash = 2" using r nz x0 xs True by (cases "hash = 2") simp_all
    have rr: "?r = GlobScan_loop doc c (sLen + 1) pCount hash"
      unfolding r using x0 xs True h2 by simp
    have ok: "scan_ok doc c (sLen + 1) hash (fst ?r)"
      using IH(1) [OF x0 xs True] h2 nz pos rr by simp
    show ?thesis
      by (rule scan_ok_step [OF ok]) (use xs h2 1(7) in \<open>simp_all add: x_def\<close>)
  next
    case nq: False
    show ?thesis
    proof (cases "x = CHR ''#'' \<and> hash = 0")
      case True
      have rr: "?r = GlobScan_loop doc c (sLen + 1) pCount (if sLen + 1 = 1 then 2 else 1)"
        unfolding r using x0 xs nq True by simp
      have ok: "scan_ok doc c (sLen + 1) (if sLen + 1 = 1 then 2 else 1) (fst ?r)"
        using IH(2) [OF x0 xs nq True] nz pos rr by simp
      show ?thesis
        by (rule scan_ok_step [OF ok]) (use xs nq True 1(7) in \<open>simp_all add: x_def\<close>)
    next
      case nh: False
      show ?thesis
      proof (cases "x = CHR ''(''")
        case True
        have rr: "?r = GlobScan_loop doc c (sLen + 1) (pCount + 1) hash"
          unfolding r using x0 xs nq nh True by auto
        have ok: "scan_ok doc c (sLen + 1) hash (fst ?r)"
          using IH(3) [OF x0 xs nq nh True] nz pos rr by simp
        show ?thesis
          by (rule scan_ok_step [OF ok]) (use xs nq 1(7) in \<open>simp_all add: x_def\<close>)
      next
        case nl: False
        show ?thesis
        proof (cases "x = CHR '')''")
          case True
          show ?thesis
          proof (cases "pCount = 0")
            case p0: True
            have h0: "hash \<noteq> 0" using r nz x0 xs nq nh nl True p0 by (cases "hash = 0") simp_all
            have rr: "?r = (sLen + 1, c)"
              unfolding r using x0 xs nq nh nl True p0 h0 by auto
            show ?thesis using scan_ok_stop [of doc c sLen hash] True rr by (simp add: x_def)
          next
            case pn: False
            have rr: "?r = GlobScan_loop doc c (sLen + 1) (pCount - 1) hash"
              unfolding r using x0 xs nq nh nl True pn by auto
            have ok: "scan_ok doc c (sLen + 1) hash (fst ?r)"
              using IH(4) [OF x0 xs nq nh nl True pn] nz pos rr by simp
            show ?thesis
              by (rule scan_ok_step [OF ok]) (use xs nq 1(7) in \<open>simp_all add: x_def\<close>)
          qed
        next
          case nr: False
          have rr: "?r = GlobScan_loop doc c (sLen + 1) pCount hash"
            unfolding r using x0 xs nq nh nl nr by auto
          have ok: "scan_ok doc c (sLen + 1) hash (fst ?r)"
            using IH(5) [OF x0 xs nq nh nl nr] nz pos rr by simp
          show ?thesis
            by (rule scan_ok_step [OF ok]) (use xs nq 1(7) in \<open>simp_all add: x_def\<close>)
        qed
      qed
    qed
  qed
qed

text \<open>C7.  The scan hands the cursor back as it got it (position, pending run, committed
  styles and all).  Let the scan meet the character at offset \<open>n\<close> from the cursor, that is, let
  none of the characters before it end the scan.  If that character is whitespace, the answer
  is 0.  If it is a quote and the scan is not in the \<^verbatim>\<open>(#\<close> case (the first character read is
  not a hash sign, or the quote is that first character), the answer is 0.  If it is a closing
  parenthesis and the text read before it has as many closing as opening parentheses and no
  hash sign, the answer is 0; with a hash sign in that text the answer is \<open>n\<close>.  At the end of the
  document the answer is 0.  And a scan that answers \<open>n \<noteq> 0\<close> has met no whitespace, and a quote
  only in the \<^verbatim>\<open>(#\<close> case, up to the closing parenthesis at offset \<open>n\<close> (\<open>scan_ok\<close>).\<close>

theorem GlobScan_aborts_and_leaves_cursor:
  assumes "1 \<le> n" and "scan_reaches doc c n"
  shows "snd (GlobScan doc c) = c
   \<and> (IsASpace (SafeGetCharAt doc (currentPos c + n)) \<longrightarrow> fst (GlobScan doc c) = 0)
   \<and> ((SafeGetCharAt doc (currentPos c + n) = SQUOTE
         \<or> SafeGetCharAt doc (currentPos c + n) = DQUOTE)
        \<and> \<not> (1 < n \<and> SafeGetCharAt doc (currentPos c + 1) = CHR ''#'')
        \<longrightarrow> fst (GlobScan doc c) = 0)
   \<and> (SafeGetCharAt doc (currentPos c + n) = CHR '')''
        \<and> paren_depth (scanned doc c (n - 1)) = 0 \<and> CHR ''#'' \<notin> set (scanned doc c (n - 1))
        \<longrightarrow> fst (GlobScan doc c) = 0)
   \<and> (SafeGetCharAt doc (currentPos c + n) = CHR '')''
        \<and> paren_depth (scanned doc c (n - 1)) = 0 \<and> CHR ''#'' \<in> set (scanned doc c (n - 1))
        \<longrightarrow> fst (GlobScan doc c) = n)
   \<and> (SafeGetCharAt doc (currentPos c + n) = NUL \<longrightarrow> fst (GlobScan doc c) = 0)
   \<and> (fst (GlobScan doc c) \<noteq> 0 \<longrightarrow> scan_ok doc c 0 0 (fst (GlobScan doc c)))"
proof -
  define x where "x = SafeGetCharAt doc (currentPos c + n)"
  define P where "P = paren_depth (scanned doc c (n - 1))"
  define H where "H = hash_code (scanned doc c (n - 1))"
  have m: "GlobScan doc c =
        (if x \<noteq> NUL then
          (if IsASpace x then (0, c)
           else if x = SQUOTE \<or> x = DQUOTE then
             (if H \<noteq> 2 then (0, c) else GlobScan_loop doc c n P H)
           else if x = CHR ''#'' \<and> H = 0 then
             GlobScan_loop doc c n P (if n = 1 then 2 else 1)
           else if x = CHR ''('' then GlobScan_loop doc c n (P + 1) H
           else if x = CHR '')'' then
             (if P = 0 then (if H \<noteq> 0 then (n, c) else (0, c))
              else GlobScan_loop doc c n (P - 1) H)
           else GlobScan_loop doc c n P H)
        else (0, c))"
    unfolding x_def P_def H_def using GlobScan_meets [OF assms] by (simp only: Let_def)
  have h2: "H = 2 \<longleftrightarrow> 1 < n \<and> SafeGetCharAt doc (currentPos c + 1) = CHR ''#''"
    unfolding H_def using hash_code_2 [of "n - 1" doc c] assms(1) by auto
  have h0: "H = 0 \<longleftrightarrow> CHR ''#'' \<notin> set (scanned doc c (n - 1))"
    unfolding H_def by (rule hash_code_0)
  have rp: "\<not> IsASpace (CHR '')'')" by (simp add: IsASpace_def Contains_def)
  have 1: "snd (GlobScan doc c) = c" by simp
  have 2: "IsASpace x \<longrightarrow> fst (GlobScan doc c) = 0"
    unfolding m using IsASpace_not_NUL [of x] by simp
  have 3: "(x = SQUOTE \<or> x = DQUOTE)
        \<and> \<not> (1 < n \<and> SafeGetCharAt doc (currentPos c + 1) = CHR ''#'')
        \<longrightarrow> fst (GlobScan doc c) = 0"
    unfolding m using h2 by auto
  have 4: "x = CHR '')'' \<and> P = 0 \<and> CHR ''#'' \<notin> set (scanned doc c (n - 1))
        \<longrightarrow> fst (GlobScan doc c) = 0"
    unfolding m using h0 rp by auto
  have 5: "x = CHR '')'' \<and> P = 0 \<and> CHR ''#'' \<in> set (scanned doc c (n - 1))
        \<longrightarrow> fst (GlobScan doc c) = n"
    unfolding m using h0 rp by auto
  have 6: "x = NUL \<longrightarrow> fst (GlobScan doc c) = 0"
    unfolding m by simp
  have 7: "fst (GlobScan doc c) \<noteq> 0 \<longrightarrow> scan_ok doc c 0 0 (fst (GlobScan doc c))"
    unfolding GlobScan_def using GlobScan_loop_result [of doc c 0 0 0] by simp
  show ?thesis
    using 1 2 3 4 5 6 7 unfolding x_def P_def by (intro conjI)
qed

theorem GlobScan_aborts_and_leaves_cursor_witness:
  "scan_reaches ''(a b)'' (cursor0 ''(a b)'') 2
   \<and> IsASpace (SafeGetCharAt ''(a b)'' (currentPos (cursor0 ''(a b)'') + 2))
   \<and> fst (GlobScan ''(a b)'' (cursor0 ''(a b)'')) = 0
   \<and> scan_reaches [CHR ''('', CHR ''a'', SQUOTE, CHR '')''] (cursor0 [CHR ''('', CHR ''a'', SQUOTE, CHR '')'']) 2
   \<and> SafeGetCharAt [CHR ''('', CHR ''a'', SQUOTE, CHR '')'']
        (currentPos (cursor0 [CHR ''('', CHR ''a'', SQUOTE, CHR '')'']) + 2) = SQUOTE
   \<and> fst (GlobScan [CHR ''('', CHR ''a'', SQUOTE, CHR '')'']
        (cursor0 [CHR ''('', CHR ''a'', SQUOTE, CHR '')''])) = 0
   \<and> scan_reaches ''((a)b)c)'' (cursor0 ''((a)b)c)'') 5
   \<and> SafeGetCharAt ''((a)b)c)'' (currentPos (cursor0 ''((a)b)c)'') + 5) = CHR '')''
   \<and> paren_depth (scanned ''((a)b)c)'' (cursor0 ''((a)b)c)'') (5 - 1)) = 0
   \<and> CHR ''#'' \<notin> set (scanned ''((a)b)c)'' (cursor0 ''((a)b)c)'') (5 - 1))
   \<and> fst (GlobScan ''((a)b)c)'' (cursor0 ''((a)b)c)'')) = 0
   \<and> scan_reaches ''(#a)'' (cursor0 ''(#a)'') 3
   \<and> fst (GlobScan ''(#a)'' (cursor0 ''(#a)'')) = 3
   \<and> scan_ok ''(#a)'' (cursor0 ''(#a)'') 0 0 3
   \<and> snd (GlobScan ''(#a)'' (cursor0 ''(#a)'')) = cursor0 ''(#a)''"
proof -
  let ?Q = "[CHR ''('', CHR ''a'', SQUOTE, CHR '')'']"
  have a: "scan_reaches ''(a b)'' (cursor0 ''(a b)'') 2"
    "IsASpace (SafeGetCharAt ''(a b)'' (currentPos (cursor0 ''(a b)'') + 2))"
    by code_simp+
  have b: "scan_reaches ?Q (cursor0 ?Q) 2"
    "SafeGetCharAt ?Q (currentPos (cursor0 ?Q) + 2) = SQUOTE"
    by code_simp+
  have b': "\<not> (1 < (2::int) \<and> SafeGetCharAt ?Q (currentPos (cursor0 ?Q) + 1) = CHR ''#'')"
    by code_simp
  have c: "scan_reaches ''((a)b)c)'' (cursor0 ''((a)b)c)'') 5"
    "SafeGetCharAt ''((a)b)c)'' (currentPos (cursor0 ''((a)b)c)'') + 5) = CHR '')''"
    "paren_depth (scanned ''((a)b)c)'' (cursor0 ''((a)b)c)'') (5 - 1)) = 0"
    "CHR ''#'' \<notin> set (scanned ''((a)b)c)'' (cursor0 ''((a)b)c)'') (5 - 1))"
    by code_simp+
  have d: "scan_reaches ''(#a)'' (cursor0 ''(#a)'') 3"
    "SafeGetCharAt ''(#a)'' (currentPos (cursor0 ''(#a)'') + 3) = CHR '')''"
    "paren_depth (scanned ''(#a)'' (cursor0 ''(#a)'') (3 - 1)) = 0"
    "CHR ''#'' \<in> set (scanned ''(#a)'' (cursor0 ''(#a)'') (3 - 1))"
    by code_simp+
  have 1: "fst (GlobScan ''(a b)'' (cursor0 ''(a b)'')) = 0"
    using a(2) GlobScan_aborts_and_leaves_cursor [OF _ a(1)] by simp
  have 2: "fst (GlobScan ?Q (cursor0 ?Q)) = 0"
    using b(2) b' GlobScan_aborts_and_leaves_cursor [OF _ b(1)] by simp
  have 3: "fst (GlobScan ''((a)b)c)'' (cursor0 ''((a)b)c)'')) = 0"
    using c(2,3,4) GlobScan_aborts_and_leaves_cursor [OF _ c(1)] by simp
  have 4: "fst (GlobScan ''(#a)'' (cursor0 ''(#a)'')) = 3"
    "snd (GlobScan ''(#a)'' (cursor0 ''(#a)'')) = cursor0 ''(#a)''"
    using d(2,3,4) GlobScan_aborts_and_leaves_cursor [OF _ d(1)] by simp_all
  have 5: "scan_ok ''(#a)'' (cursor0 ''(#a)'') 0 0 3"
    using 4(1) GlobScan_aborts_and_leaves_cursor [OF _ d(1)] by simp
  show ?thesis
    by (intro conjI) (rule a b c d 1 2 3 4 5)+
qed

section \<open>The delimiter buffer of the here-document (C10)\<close>

text \<open>Two states for the examples: the loop after two turns over \<^verbatim>\<open><<EOF\<close>, where the
  delimiter is about to be collected; and a state whose buffer holds 254 characters, with the
  cursor on one more character of the delimiter.\<close>

definition collecting_example :: BashLexer where
  "collecting_example =
     loop_step ''<<EOF'' [] (loop_step ''<<EOF'' [] (lexer_init (cursor0 ''<<EOF'')))"

definition full_buffer_example :: BashLexer where
  "full_buffer_example =
     (lexer_init ((cursor0 ''a'')\<lparr>state := SCE_SH_HERE_DELIM\<rparr>))
       \<lparr>HereDoc := HereDoc_init\<lparr>State := 1, DelimiterLength := 254\<rparr>\<rparr>"

text \<open>C10.  In every state a pass goes through, from whatever cursor it starts, no write
  into \<^verbatim>\<open>Delimiter\<close> has left the array; and where the delimiter is being collected (the only
  place that calls \<^verbatim>\<open>Append\<close>), \<^verbatim>\<open>DelimiterLength\<close> is below 255, so that the two writes of the
  next \<^verbatim>\<open>Append\<close> are inside the array.  The same holds when \<^verbatim>\<open>ColouriseBashDoc\<close> has returned.
  The announcement of a here-document resets the length to 0, and a length of 255 puts the
  cursor into the error style and the here-document back to state 0.\<close>

theorem delimiter_buffer_in_bounds:
  "(reach doc kw (lexer_init c) L \<longrightarrow>
      \<not> Overrun (HereDoc L)
      \<and> (state (sc L) = SCE_SH_HERE_DELIM \<and> State (HereDoc L) = 1 \<longrightarrow>
            DelimiterLength (HereDoc L) < HERE_DELIM_MAX - 1
            \<and> in_bounds (Delimiter (HereDoc L)) (DelimiterLength (HereDoc L))
            \<and> in_bounds (Delimiter (HereDoc L)) (DelimiterLength (HereDoc L) + 1)))
   \<and> \<not> Overrun (HereDoc (ColouriseBashDoc doc kw startPos len st ls))
   \<and> DelimiterLength (HereDoc (here_delim_announced doc M)) = 0
   \<and> (DelimiterLength (HereDoc (here_delim_collect doc M)) \<ge> HERE_DELIM_MAX - 1 \<longrightarrow>
         State (HereDoc (here_delim_collect doc M)) = 0
         \<and> state (sc (here_delim_collect doc M)) = SCE_SH_ERROR)"
proof (intro conjI impI)
  assume r: "reach doc kw (lexer_init c) L"
  have i: "hd_inv L" using hd_inv_reach [OF r hd_inv_init] .
  show "\<not> Overrun (HereDoc L)" using i by (simp add: hd_inv_def)
  assume s: "state (sc L) = SCE_SH_HERE_DELIM \<and> State (HereDoc L) = 1"
  show "DelimiterLength (HereDoc L) < HERE_DELIM_MAX - 1" using i s by (simp add: hd_inv_def)
  show "in_bounds (Delimiter (HereDoc L)) (DelimiterLength (HereDoc L))"
    using i s by (simp add: hd_inv_def in_bounds_def)
  show "in_bounds (Delimiter (HereDoc L)) (DelimiterLength (HereDoc L) + 1)"
    using i s by (simp add: hd_inv_def in_bounds_def)
next
  let ?c = "StyleContext_init doc (restart_pos doc ls startPos)
              (startPos + len - restart_pos doc ls startPos) SCE_SH_DEFAULT st ls"
  have "reach doc kw (lexer_init ?c) (lex_loop doc kw (lexer_init ?c))"
    by (rule reach_lex_loop [OF reach_init])
  then have "hd_inv (lex_loop doc kw (lexer_init ?c))"
    by (rule hd_inv_reach) (rule hd_inv_init)
  then show "\<not> Overrun (HereDoc (ColouriseBashDoc doc kw startPos len st ls))"
    by (simp add: ColouriseBashDoc_def Let_def hd_inv_def)
next
  show "DelimiterLength (HereDoc (here_delim_announced doc M)) = 0"
    by (simp add: here_delim_announced_def Let_def Delimiter_write_def)
next
  assume "HERE_DELIM_MAX - 1 \<le> DelimiterLength (HereDoc (here_delim_collect doc M))"
  then show "State (HereDoc (here_delim_collect doc M)) = 0"
    and "state (sc (here_delim_collect doc M)) = SCE_SH_ERROR"
    using here_delim_collect_overflow [of doc M] by simp_all
qed

theorem delimiter_buffer_in_bounds_witness:
  "reach ''<<EOF'' [] (lexer_init (cursor0 ''<<EOF'')) collecting_example
   \<and> state (sc collecting_example) = SCE_SH_HERE_DELIM
   \<and> State (HereDoc collecting_example) = 1
   \<and> \<not> Overrun (HereDoc collecting_example)
   \<and> DelimiterLength (HereDoc collecting_example) < HERE_DELIM_MAX - 1
   \<and> in_bounds (Delimiter (HereDoc collecting_example))
        (DelimiterLength (HereDoc collecting_example) + 1)
   \<and> DelimiterLength (HereDoc (here_delim_collect ''a'' full_buffer_example)) \<ge> HERE_DELIM_MAX - 1
   \<and> State (HereDoc (here_delim_collect ''a'' full_buffer_example)) = 0
   \<and> state (sc (here_delim_collect ''a'' full_buffer_example)) = SCE_SH_ERROR"
proof -
  have m0: "More (sc (lexer_init (cursor0 ''<<EOF'')))"
    by code_simp
  have m1: "More (sc (loop_step ''<<EOF'' [] (lexer_init (cursor0 ''<<EOF''))))"
    by code_simp
  have r: "reach ''<<EOF'' [] (lexer_init (cursor0 ''<<EOF'')) collecting_example"
    unfolding collecting_example_def
    by (rule reach_step [OF reach_step [OF reach_init m0] m1])
  have s: "state (sc collecting_example) = SCE_SH_HERE_DELIM \<and> State (HereDoc collecting_example) = 1"
    by code_simp
  have f: "DelimiterLength (HereDoc (here_delim_collect ''a'' full_buffer_example)) \<ge> HERE_DELIM_MAX - 1"
    by code_simp
  show ?thesis
    using r s f
      delimiter_buffer_in_bounds
        [where doc = "''<<EOF''" and kw = "[]" and c = "cursor0 ''<<EOF''"
           and L = collecting_example]
      delimiter_buffer_in_bounds [where doc = "''a''" and M = full_buffer_example]
    by simp
qed

section \<open>The quote stack (C5)\<close>

text \<open>Two states for the examples: the loop after two turns over a double quote followed by
  \<^verbatim>\<open>$(a\<close>, where one frame has been pushed; and a stack at its maximum depth.\<close>

definition nested_example :: BashLexer where
  "nested_example =
     loop_step [DQUOTE, CHR ''$'', CHR ''('', CHR ''a''] []
       (loop_step [DQUOTE, CHR ''$'', CHR ''('', CHR ''a''] []
          (lexer_init (cursor0 [DQUOTE, CHR ''$'', CHR ''('', CHR ''a''])))"

definition full_stack_example :: QuoteStackCls where
  "full_stack_example = QuoteStack_init\<lparr>Depth := BASH_DELIM_STACK_MAX\<rparr>"

text \<open>C5.  In every state a pass goes through, and when \<^verbatim>\<open>ColouriseBashDoc\<close> has returned, the
  depth is between 0 and 7; \<^verbatim>\<open>Start\<close>, \<^verbatim>\<open>Push\<close> and \<^verbatim>\<open>Pop\<close> each keep it there.  A \<^verbatim>\<open>Push\<close> at
  depth 7 (or more) returns the object as it is: entries, depth, \<^verbatim>\<open>Count\<close>, \<^verbatim>\<open>Up\<close>, \<^verbatim>\<open>Down\<close>
  and \<^verbatim>\<open>Style\<close>.  The code that pushes (\<open>string_nesting\<close>) commits no style and keeps the
  cursor's style, whatever the depth; and the whole case of the switch for strings and
  backticks commits no style but the cursor's own and leaves the cursor in that style or in
  the default one: no error style comes from it.\<close>

theorem quote_stack_depth_bounded:
  "(reach doc kw (lexer_init c) L \<longrightarrow>
       0 \<le> Depth (QuoteStack L) \<and> Depth (QuoteStack L) \<le> BASH_DELIM_STACK_MAX)
   \<and> 0 \<le> Depth (QuoteStack (ColouriseBashDoc doc kw startPos len st ls))
   \<and> Depth (QuoteStack (ColouriseBashDoc doc kw startPos len st ls)) \<le> BASH_DELIM_STACK_MAX
   \<and> (qs_inv q \<longrightarrow> qs_inv (Start u s q) \<and> qs_inv (Push u s q) \<and> qs_inv (Pop q))
   \<and> (Depth q \<ge> BASH_DELIM_STACK_MAX \<longrightarrow> Push u s q = q)
   \<and> styles (sc (string_nesting doc M)) = styles (sc M)
   \<and> state (sc (string_nesting doc M)) = state (sc M)
   \<and> only_style (state (sc M)) (sc M) (sc (case_STRING doc M))
   \<and> (state (sc (case_STRING doc M)) = state (sc M)
        \<or> state (sc (case_STRING doc M)) = SCE_SH_DEFAULT)"
proof -
  let ?c = "StyleContext_init doc (restart_pos doc ls startPos)
              (startPos + len - restart_pos doc ls startPos) SCE_SH_DEFAULT st ls"
  have "reach doc kw (lexer_init ?c) (lex_loop doc kw (lexer_init ?c))"
    by (rule reach_lex_loop [OF reach_init])
  then have "qs_inv (QuoteStack (lex_loop doc kw (lexer_init ?c)))"
    by (rule qs_inv_reach) (rule qs_inv_init)
  then have fin: "qs_inv (QuoteStack (ColouriseBashDoc doc kw startPos len st ls))"
    by (simp add: ColouriseBashDoc_def Let_def)
  have r: "reach doc kw (lexer_init c) L \<longrightarrow> qs_inv (QuoteStack L)"
    using qs_inv_reach [OF _ qs_inv_init] by blast
  show ?thesis
    using r fin qs_inv_Start [of q u s] qs_inv_Push [of q u s] qs_inv_Pop [of q]
      Push_full [of q u s] string_nesting_styles [where L = M and doc = doc] case_STRING_styles [where L = M and doc = doc]
    by (simp add: qs_inv_def)
qed

theorem quote_stack_depth_bounded_witness:
  "reach [DQUOTE, CHR ''$'', CHR ''('', CHR ''a''] []
     (lexer_init (cursor0 [DQUOTE, CHR ''$'', CHR ''('', CHR ''a''])) nested_example
   \<and> Depth (QuoteStack nested_example) = 1
   \<and> qs_inv full_stack_example
   \<and> qs_inv (Pop full_stack_example)
   \<and> Depth full_stack_example \<ge> BASH_DELIM_STACK_MAX
   \<and> Push (CHR ''('') BASH_DELIM_COMMAND full_stack_example = full_stack_example"
proof -
  let ?D = "[DQUOTE, CHR ''$'', CHR ''('', CHR ''a'']"
  have m0: "More (sc (lexer_init (cursor0 ?D)))"
    by code_simp
  have m1: "More (sc (loop_step ?D [] (lexer_init (cursor0 ?D))))"
    by code_simp
  have r: "reach ?D [] (lexer_init (cursor0 ?D)) nested_example"
    unfolding nested_example_def
    by (rule reach_step [OF reach_step [OF reach_init m0] m1])
  have d: "Depth (QuoteStack nested_example) = 1"
    by code_simp
  have q: "qs_inv full_stack_example" "Depth full_stack_example \<ge> BASH_DELIM_STACK_MAX"
    by (simp_all add: qs_inv_def full_stack_example_def)
  show ?thesis
    using r d q
      quote_stack_depth_bounded
        [where doc = ?D and kw = "[]" and c = "cursor0 ?D" and L = nested_example
           and q = full_stack_example and u = "CHR ''(''" and s = BASH_DELIM_COMMAND]
    by simp
qed

section \<open>Errors of the here-document delimiter (C2)\<close>

text \<open>The operator \<^verbatim>\<open><<\<close> followed by a semicolon, and the same with a string begun on that
  line and closed on the next.\<close>

definition empty_delimiter_example :: string where
  "empty_delimiter_example = [CHR ''<'', CHR ''<'', CHR '';'', LF]"

definition empty_delimiter_string_example :: string where
  "empty_delimiter_string_example =
     [CHR ''<'', CHR ''<'', CHR '';'', DQUOTE, CHR ''a'', CHR ''b'', LF, CHR ''c'', DQUOTE, LF]"

text \<open>C2 fails on the code.  In \<^verbatim>\<open><<;\<close> the delimiter is unquoted and of length 0: the semicolon
  ends its collection, and line 479 commits \<^verbatim>\<open><<\<close> in the style \<^verbatim>\<open>SCE_SH_HERE_DELIM\<close>.  At the
  line end, line 602 finds \<^verbatim>\<open>HereDoc.State == 1\<close>, no quote and the length 0, and lines 617 to 620
  give the error style to the pending run, which is empty: no byte of the line is styled as
  error.  When a string has begun after the semicolon, it is that string, up to the line end,
  which gets the error style, and the cursor leaves it for the default style.\<close>

theorem empty_delimiter_is_not_error:
  "State (HereDoc (after_switch 3 empty_delimiter_example)) = 1
   \<and> atLineEnd (sc (after_switch 3 empty_delimiter_example))
   \<and> \<not> Quoted (HereDoc (after_switch 3 empty_delimiter_example))
   \<and> DelimiterLength (HereDoc (after_switch 3 empty_delimiter_example)) = 0
   \<and> styles (sc (lex_all empty_delimiter_example []))
       = [SCE_SH_HERE_DELIM, SCE_SH_HERE_DELIM, SCE_SH_OPERATOR, SCE_SH_DEFAULT]
   \<and> State (HereDoc (after_switch 6 empty_delimiter_string_example)) = 1
   \<and> atLineEnd (sc (after_switch 6 empty_delimiter_string_example))
   \<and> \<not> Quoted (HereDoc (after_switch 6 empty_delimiter_string_example))
   \<and> DelimiterLength (HereDoc (after_switch 6 empty_delimiter_string_example)) = 0
   \<and> state (sc (after_switch 6 empty_delimiter_string_example)) = SCE_SH_STRING
   \<and> styles (sc (lex_all empty_delimiter_string_example []))
       = [SCE_SH_HERE_DELIM, SCE_SH_HERE_DELIM, SCE_SH_OPERATOR, SCE_SH_ERROR, SCE_SH_ERROR,
          SCE_SH_ERROR, SCE_SH_DEFAULT, SCE_SH_IDENTIFIER, SCE_SH_STRING, SCE_SH_STRING]"
  by code_simp

text \<open>The rest of C2 holds.  At line 602 (\<^verbatim>\<open>HereDoc.State == 1\<close> at a line end, the cursor inside
  the document) with the cursor still in the style \<^verbatim>\<open>SCE_SH_HERE_DELIM\<close>: a quoted delimiter
  (the closing quote has not come) gives the pending run the error style, leaves the cursor in
  the default style, not in \<^verbatim>\<open>SCE_SH_HERE_Q\<close>, and the here-document in state 2, which no later
  line end takes for a delimiter being collected; so does an unquoted delimiter of length 0;
  and when a delimiter of length 0 does enter \<^verbatim>\<open>SCE_SH_HERE_Q\<close>, it was quoted.  While a quoted
  delimiter is collected, only its quote character takes the cursor out of
  \<^verbatim>\<open>SCE_SH_HERE_DELIM\<close>.  A delimiter length of 255 puts the cursor into the error style and the
  here-document into state 0; from such a state on, every later state of the pass is in the
  error style, with no delimiter collected and no style byte changed: nothing is styled as
  here-document body.\<close>

lemma here_doc_line_end_errors:
  "(State (HereDoc L) = 1 \<and> atLineEnd (sc L) \<and> currentPos (sc L) \<le> int (length doc)
      \<and> state (sc L) = SCE_SH_HERE_DELIM \<longrightarrow>
      (Quoted (HereDoc L) \<or> DelimiterLength (HereDoc L) = 0 \<longrightarrow>
         state (sc (here_doc_line_end doc L)) = SCE_SH_DEFAULT
         \<and> run_styled (sc L) (sc (here_doc_line_end doc L)) SCE_SH_ERROR
         \<and> State (HereDoc (here_doc_line_end doc L)) = 2))
   \<and> (State (HereDoc L) = 1 \<and> atLineEnd (sc L) \<and> DelimiterLength (HereDoc L) = 0
        \<and> state (sc (here_doc_line_end doc L)) = SCE_SH_HERE_Q \<longrightarrow> Quoted (HereDoc L))
   \<and> (State (HereDoc L) \<noteq> 1 \<longrightarrow> here_doc_line_end doc L = L)
   \<and> (Quoted (HereDoc M) \<and> state (sc M) = SCE_SH_HERE_DELIM
        \<and> state (sc (collect_char doc M)) \<noteq> SCE_SH_HERE_DELIM
        \<longrightarrow> ch (sc M) = HQuote (HereDoc M))
   \<and> (DelimiterLength (HereDoc (here_delim_collect doc M)) \<ge> HERE_DELIM_MAX - 1 \<longrightarrow>
        state (sc (here_delim_collect doc M)) = SCE_SH_ERROR
        \<and> State (HereDoc (here_delim_collect doc M)) = 0
        \<and> error_stuck (here_delim_collect doc M))
   \<and> (error_stuck M \<and> reach doc kw M N \<longrightarrow>
        state (sc N) = SCE_SH_ERROR \<and> State (HereDoc N) \<noteq> 1 \<and> styles (sc N) = styles (sc M))"
proof -
  have A: "State (HereDoc L) = 1 \<and> atLineEnd (sc L) \<and> currentPos (sc L) \<le> int (length doc)
      \<and> state (sc L) = SCE_SH_HERE_DELIM \<longrightarrow>
      (Quoted (HereDoc L) \<or> DelimiterLength (HereDoc L) = 0 \<longrightarrow>
         state (sc (here_doc_line_end doc L)) = SCE_SH_DEFAULT
         \<and> run_styled (sc L) (sc (here_doc_line_end doc L)) SCE_SH_ERROR
         \<and> State (HereDoc (here_doc_line_end doc L)) = 2)"
    using run_styled_error [of "sc L" doc SCE_SH_DEFAULT]
    by (auto simp: here_doc_line_end_def Let_def)
  have B: "State (HereDoc L) = 1 \<and> atLineEnd (sc L) \<and> DelimiterLength (HereDoc L) = 0
        \<and> state (sc (here_doc_line_end doc L)) = SCE_SH_HERE_Q \<longrightarrow> Quoted (HereDoc L)"
    by (auto simp: here_doc_line_end_def Let_def split: if_splits)
  have C: "State (HereDoc L) \<noteq> 1 \<longrightarrow> here_doc_line_end doc L = L"
    by (simp add: here_doc_line_end_def)
  have D: "Quoted (HereDoc M) \<and> state (sc M) = SCE_SH_HERE_DELIM
        \<and> state (sc (collect_char doc M)) \<noteq> SCE_SH_HERE_DELIM
        \<longrightarrow> ch (sc M) = HQuote (HereDoc M)"
    using collect_char_quoted [of M doc] by simp
  have E: "DelimiterLength (HereDoc (here_delim_collect doc M)) \<ge> HERE_DELIM_MAX - 1 \<longrightarrow>
        state (sc (here_delim_collect doc M)) = SCE_SH_ERROR
        \<and> State (HereDoc (here_delim_collect doc M)) = 0
        \<and> error_stuck (here_delim_collect doc M)"
    using here_delim_collect_overflow [of doc M] by (simp add: error_stuck_def)
  have F: "error_stuck M \<and> reach doc kw M N \<longrightarrow>
        state (sc N) = SCE_SH_ERROR \<and> State (HereDoc N) \<noteq> 1 \<and> styles (sc N) = styles (sc M)"
    using error_stuck_reach [of doc kw M N] by (auto simp: error_stuck_def)
  show ?thesis
    by (intro conjI) (rule A B C D E F)+
qed

lemma here_doc_line_end_errors_example:
  "State (HereDoc (after_switch 3 [CHR ''<'', CHR ''<'', SQUOTE, CHR ''E'', LF])) = 1
   \<and> atLineEnd (sc (after_switch 3 [CHR ''<'', CHR ''<'', SQUOTE, CHR ''E'', LF]))
   \<and> Quoted (HereDoc (after_switch 3 [CHR ''<'', CHR ''<'', SQUOTE, CHR ''E'', LF]))
   \<and> state (sc (after_switch 3 [CHR ''<'', CHR ''<'', SQUOTE, CHR ''E'', LF])) = SCE_SH_HERE_DELIM
   \<and> state (sc (here_doc_line_end [CHR ''<'', CHR ''<'', SQUOTE, CHR ''E'', LF]
                 (after_switch 3 [CHR ''<'', CHR ''<'', SQUOTE, CHR ''E'', LF]))) = SCE_SH_DEFAULT
   \<and> run_styled (sc (after_switch 3 [CHR ''<'', CHR ''<'', SQUOTE, CHR ''E'', LF]))
        (sc (here_doc_line_end [CHR ''<'', CHR ''<'', SQUOTE, CHR ''E'', LF]
               (after_switch 3 [CHR ''<'', CHR ''<'', SQUOTE, CHR ''E'', LF]))) SCE_SH_ERROR
   \<and> \<not> Quoted (HereDoc (after_switch 2 [CHR ''<'', CHR ''<'', LF, CHR ''x'']))
   \<and> DelimiterLength (HereDoc (after_switch 2 [CHR ''<'', CHR ''<'', LF, CHR ''x''])) = 0
   \<and> run_styled (sc (after_switch 2 [CHR ''<'', CHR ''<'', LF, CHR ''x'']))
        (sc (here_doc_line_end [CHR ''<'', CHR ''<'', LF, CHR ''x'']
               (after_switch 2 [CHR ''<'', CHR ''<'', LF, CHR ''x'']))) SCE_SH_ERROR
   \<and> state (sc (here_doc_line_end [CHR ''<'', CHR ''<'', SQUOTE, SQUOTE, LF]
                 (after_switch 2 [CHR ''<'', CHR ''<'', SQUOTE, SQUOTE, LF]))) = SCE_SH_HERE_Q
   \<and> Quoted (HereDoc (after_switch 2 [CHR ''<'', CHR ''<'', SQUOTE, SQUOTE, LF]))
   \<and> ch (sc (turns 2 [CHR ''<'', CHR ''<'', SQUOTE, SQUOTE, LF])) = SQUOTE
   \<and> error_stuck (here_delim_collect ''a'' full_buffer_example)
   \<and> state (sc (loop_step ''a'' [] (here_delim_collect ''a'' full_buffer_example))) = SCE_SH_ERROR"
proof -
  let ?A = "[CHR ''<'', CHR ''<'', SQUOTE, CHR ''E'', LF]"
  let ?B = "[CHR ''<'', CHR ''<'', LF, CHR ''x'']"
  let ?C = "[CHR ''<'', CHR ''<'', SQUOTE, SQUOTE, LF]"
  let ?M = "here_delim_collect ''a'' full_buffer_example"
  have a: "State (HereDoc (after_switch 3 ?A)) = 1 \<and> atLineEnd (sc (after_switch 3 ?A))
           \<and> currentPos (sc (after_switch 3 ?A)) \<le> int (length ?A)
           \<and> Quoted (HereDoc (after_switch 3 ?A))
           \<and> state (sc (after_switch 3 ?A)) = SCE_SH_HERE_DELIM"
    by code_simp
  have b: "State (HereDoc (after_switch 2 ?B)) = 1 \<and> atLineEnd (sc (after_switch 2 ?B))
           \<and> currentPos (sc (after_switch 2 ?B)) \<le> int (length ?B)
           \<and> \<not> Quoted (HereDoc (after_switch 2 ?B))
           \<and> DelimiterLength (HereDoc (after_switch 2 ?B)) = 0
           \<and> state (sc (after_switch 2 ?B)) = SCE_SH_HERE_DELIM"
    by code_simp
  have c: "State (HereDoc (after_switch 2 ?C)) = 1 \<and> atLineEnd (sc (after_switch 2 ?C))
           \<and> currentPos (sc (after_switch 2 ?C)) \<le> int (length ?C)
           \<and> DelimiterLength (HereDoc (after_switch 2 ?C)) = 0
           \<and> state (sc (here_doc_line_end ?C (after_switch 2 ?C))) = SCE_SH_HERE_Q"
    by code_simp
  have d: "Quoted (HereDoc (turns 2 ?C)) \<and> state (sc (turns 2 ?C)) = SCE_SH_HERE_DELIM
           \<and> state (sc (collect_char ?C (turns 2 ?C))) \<noteq> SCE_SH_HERE_DELIM
           \<and> HQuote (HereDoc (turns 2 ?C)) = SQUOTE"
    by code_simp
  have e: "HERE_DELIM_MAX - 1 \<le> DelimiterLength (HereDoc ?M)"
    by code_simp
  have m: "More (sc ?M)"
    by code_simp
  have r: "reach ''a'' [] ?M (loop_step ''a'' [] ?M)"
    by (rule reach_step [OF reach_init m])
  have 1: "state (sc (here_doc_line_end ?A (after_switch 3 ?A))) = SCE_SH_DEFAULT
           \<and> run_styled (sc (after_switch 3 ?A)) (sc (here_doc_line_end ?A (after_switch 3 ?A)))
                SCE_SH_ERROR"
    using a here_doc_line_end_errors [where doc = ?A and L = "after_switch 3 ?A"] by blast
  have 2: "run_styled (sc (after_switch 2 ?B)) (sc (here_doc_line_end ?B (after_switch 2 ?B)))
             SCE_SH_ERROR"
    using b here_doc_line_end_errors [where doc = ?B and L = "after_switch 2 ?B"] by blast
  have 3: "Quoted (HereDoc (after_switch 2 ?C)) \<and> ch (sc (turns 2 ?C)) = HQuote (HereDoc (turns 2 ?C))"
    using c d
      here_doc_line_end_errors [where doc = ?C and L = "after_switch 2 ?C" and M = "turns 2 ?C"]
    by blast
  have 4: "error_stuck ?M"
    using e here_doc_line_end_errors [where doc = "''a''" and M = full_buffer_example] by blast
  have 5: "state (sc (loop_step ''a'' [] ?M)) = SCE_SH_ERROR"
    using 4 r
      here_doc_line_end_errors
        [where doc = "''a''" and kw = "[]" and M = ?M and N = "loop_step ''a'' [] ?M"]
    by blast
  show ?thesis
    using a b c d 1 2 3 4 5 by (simp only: simp_thms)
qed

section \<open>The keyword test (C3)\<close>

text \<open>C3 as stated fails.  In \<^verbatim>\<open>echo test \<close> the token \<^verbatim>\<open>test\<close> is followed by a space, and
  the command state at the token is \<^verbatim>\<open>BASH_CMD_BODY\<close>; the pass styles it as identifier and the
  command state stays \<^verbatim>\<open>BASH_CMD_BODY\<close> after it (line 319 asks for \<^verbatim>\<open>BASH_CMD_START\<close>).\<close>

theorem test_in_command_body_is_identifier:
  "state (sc (turns 9 ''echo test '')) = SCE_SH_WORD
   \<and> GetCurrent ''echo test '' (sc (turns 9 ''echo test '')) 512 = ''test''
   \<and> IsASpace (ch (sc (turns 9 ''echo test '')))
   \<and> cmdState (turns 9 ''echo test '') = BASH_CMD_BODY
   \<and> map (\<lambda>i. styles (sc (lex_all ''echo test '' [])) ! i) [5, 6, 7, 8]
       = [SCE_SH_IDENTIFIER, SCE_SH_IDENTIFIER, SCE_SH_IDENTIFIER, SCE_SH_IDENTIFIER]
   \<and> cmdState (turns 10 ''echo test '') = BASH_CMD_BODY
   \<and> BASH_CMD_BODY \<noteq> BASH_CMD_TEST"
  by code_simp

text \<open>C3 as amended.  The cursor is in the word style, the pending word is \<^verbatim>\<open>test\<close>, and
  whitespace or a command delimiter follows.  If the command state is \<^verbatim>\<open>BASH_CMD_START\<close>, the
  word is committed in the word style, \<^verbatim>\<open>cmdStateNew\<close> is \<^verbatim>\<open>BASH_CMD_TEST\<close> with
  \<^verbatim>\<open>testExprType\<close> 0, and (unless this is the line end that starts a here-document) line 628
  makes \<^verbatim>\<open>BASH_CMD_TEST\<close> the command state.  In any other command state the word is committed
  as identifier, and the command state after line 628 is \<^verbatim>\<open>BASH_CMD_TEST\<close> only if it was
  before.\<close>

theorem test_keyword_needs_start:
  assumes "state (sc L) = SCE_SH_WORD"
    and "strcmp_eq (GetCurrent doc (sc L) 512) ''test''"
    and "keywordEnds (sc L)"
    and "currentPos (sc L) \<le> int (length doc)"
  shows "(cmdState L = BASH_CMD_START \<longrightarrow>
            run_styled (sc L) (sc (case_WORD doc kw (init_cmdStateNew L))) SCE_SH_WORD
            \<and> state (sc (case_WORD doc kw (init_cmdStateNew L))) = SCE_SH_DEFAULT
            \<and> cmdStateNew (case_WORD doc kw (init_cmdStateNew L)) = BASH_CMD_TEST
            \<and> testExprType (case_WORD doc kw (init_cmdStateNew L)) = 0
            \<and> (\<not> (State (HereDoc L) = 1 \<and> atLineEnd (sc L)) \<longrightarrow>
                 cmdState (update_cmdState SCE_SH_WORD
                   (here_doc_line_end doc (case_WORD doc kw (init_cmdStateNew L)))) = BASH_CMD_TEST))
         \<and> (cmdState L \<noteq> BASH_CMD_START \<longrightarrow>
            run_styled (sc L) (sc (case_WORD doc kw (init_cmdStateNew L))) SCE_SH_IDENTIFIER
            \<and> state (sc (case_WORD doc kw (init_cmdStateNew L))) = SCE_SH_DEFAULT
            \<and> (cmdState (update_cmdState SCE_SH_WORD
                   (here_doc_line_end doc (case_WORD doc kw (init_cmdStateNew L)))) = BASH_CMD_TEST
                 \<longrightarrow> cmdState L = BASH_CMD_TEST))"
proof -
  note ke = keywordEnds_not_word [OF assms(3)]
  note st = strcmp_test [OF assms(2)]
  have k: "IsASpace (ch (sc L)) \<or> InList cmdDelimiter [ch (sc L)]"
    using assms(3) by (simp add: keywordEnds_def)
  have rs: "run_styled (sc L) (SetState doc st' ((sc L)\<lparr>state := x\<rparr>)) x" for st' x
    using run_styled_SetState [of "(sc L)\<lparr>state := x\<rparr>" doc st'] assms(4)
    by (simp add: run_styled_def)
  have rw: "run_styled (sc L) (SetState doc st' (sc L)) SCE_SH_WORD" for st'
    using run_styled_SetState [of "sc L" doc st'] assms(1,4) by simp
  show ?thesis
  proof (intro conjI impI)
    assume s: "cmdState L = BASH_CMD_START"
    show "run_styled (sc L) (sc (case_WORD doc kw (init_cmdStateNew L))) SCE_SH_WORD"
      using s ke st k assms(2) rw
      by (simp add: case_WORD_def classify_word_def init_cmdStateNew_def ChangeState_def Let_def)
    show "state (sc (case_WORD doc kw (init_cmdStateNew L))) = SCE_SH_DEFAULT"
      using s ke st k assms(2)
      by (simp add: case_WORD_def classify_word_def init_cmdStateNew_def ChangeState_def Let_def)
    show "cmdStateNew (case_WORD doc kw (init_cmdStateNew L)) = BASH_CMD_TEST"
      using s ke st k assms(2)
      by (simp add: case_WORD_def classify_word_def init_cmdStateNew_def ChangeState_def Let_def)
    show "testExprType (case_WORD doc kw (init_cmdStateNew L)) = 0"
      using s ke st k assms(2)
      by (simp add: case_WORD_def classify_word_def init_cmdStateNew_def ChangeState_def Let_def)
    assume "\<not> (State (HereDoc L) = 1 \<and> atLineEnd (sc L))"
    then show "cmdState (update_cmdState SCE_SH_WORD
                 (here_doc_line_end doc (case_WORD doc kw (init_cmdStateNew L)))) = BASH_CMD_TEST"
      using s ke st k assms(2)
      by (simp add: update_cmdState_def here_doc_line_end_def case_WORD_def classify_word_def
          init_cmdStateNew_def SetState_def ColourTo_def Let_def)
  next
    assume s: "cmdState L \<noteq> BASH_CMD_START"
    show "run_styled (sc L) (sc (case_WORD doc kw (init_cmdStateNew L))) SCE_SH_IDENTIFIER"
      using s ke st k assms(2) rs
      by (simp add: case_WORD_def classify_word_def init_cmdStateNew_def ChangeState_def Let_def)
    show "state (sc (case_WORD doc kw (init_cmdStateNew L))) = SCE_SH_DEFAULT"
      using s ke st k assms(2)
      by (simp add: case_WORD_def classify_word_def init_cmdStateNew_def ChangeState_def Let_def)
    assume "cmdState (update_cmdState SCE_SH_WORD
              (here_doc_line_end doc (case_WORD doc kw (init_cmdStateNew L)))) = BASH_CMD_TEST"
    then show "cmdState L = BASH_CMD_TEST"
      using s ke st k assms(2)
      by (simp add: update_cmdState_def here_doc_line_end_def case_WORD_def classify_word_def
          init_cmdStateNew_def ChangeState_def Let_def split: if_splits)
  qed
qed

theorem test_keyword_needs_start_witness:
  "state (sc (turns 4 ''test '')) = SCE_SH_WORD
   \<and> strcmp_eq (GetCurrent ''test '' (sc (turns 4 ''test '')) 512) ''test''
   \<and> keywordEnds (sc (turns 4 ''test ''))
   \<and> cmdState (turns 4 ''test '') = BASH_CMD_START
   \<and> run_styled (sc (turns 4 ''test ''))
        (sc (case_WORD ''test '' [] (init_cmdStateNew (turns 4 ''test '')))) SCE_SH_WORD
   \<and> cmdStateNew (case_WORD ''test '' [] (init_cmdStateNew (turns 4 ''test ''))) = BASH_CMD_TEST
   \<and> cmdState (update_cmdState SCE_SH_WORD (here_doc_line_end ''test ''
        (case_WORD ''test '' [] (init_cmdStateNew (turns 4 ''test ''))))) = BASH_CMD_TEST
   \<and> state (sc (turns 9 ''echo test '')) = SCE_SH_WORD
   \<and> strcmp_eq (GetCurrent ''echo test '' (sc (turns 9 ''echo test '')) 512) ''test''
   \<and> keywordEnds (sc (turns 9 ''echo test ''))
   \<and> cmdState (turns 9 ''echo test '') \<noteq> BASH_CMD_START
   \<and> run_styled (sc (turns 9 ''echo test ''))
        (sc (case_WORD ''echo test '' [] (init_cmdStateNew (turns 9 ''echo test ''))))
        SCE_SH_IDENTIFIER"
proof -
  have a: "state (sc (turns 4 ''test '')) = SCE_SH_WORD"
    "strcmp_eq (GetCurrent ''test '' (sc (turns 4 ''test '')) 512) ''test''"
    "keywordEnds (sc (turns 4 ''test ''))"
    "currentPos (sc (turns 4 ''test '')) \<le> int (length ''test '')"
    by code_simp+
  have a': "cmdState (turns 4 ''test '') = BASH_CMD_START
            \<and> \<not> (State (HereDoc (turns 4 ''test '')) = 1 \<and> atLineEnd (sc (turns 4 ''test '')))"
    by code_simp
  have b: "state (sc (turns 9 ''echo test '')) = SCE_SH_WORD"
    "strcmp_eq (GetCurrent ''echo test '' (sc (turns 9 ''echo test '')) 512) ''test''"
    "keywordEnds (sc (turns 9 ''echo test ''))"
    "currentPos (sc (turns 9 ''echo test '')) \<le> int (length ''echo test '')"
    by code_simp+
  have b': "cmdState (turns 9 ''echo test '') \<noteq> BASH_CMD_START"
    by code_simp
  have 1: "run_styled (sc (turns 4 ''test ''))
        (sc (case_WORD ''test '' [] (init_cmdStateNew (turns 4 ''test '')))) SCE_SH_WORD
     \<and> cmdStateNew (case_WORD ''test '' [] (init_cmdStateNew (turns 4 ''test ''))) = BASH_CMD_TEST
     \<and> cmdState (update_cmdState SCE_SH_WORD (here_doc_line_end ''test ''
        (case_WORD ''test '' [] (init_cmdStateNew (turns 4 ''test ''))))) = BASH_CMD_TEST"
    using a' test_keyword_needs_start [OF a, of "[]"] by blast
  have 2: "run_styled (sc (turns 9 ''echo test ''))
        (sc (case_WORD ''echo test '' [] (init_cmdStateNew (turns 9 ''echo test ''))))
        SCE_SH_IDENTIFIER"
    using b' test_keyword_needs_start [OF b, of "[]"] by blast
  show ?thesis
    using a a' b b' 1 2 by (simp only: simp_thms)
qed

section \<open>Numerals with a base (C4)\<close>

text \<open>C4 as stated fails.  In \<^verbatim>\<open>2#1a \<close> the base is 2 and the character \<^verbatim>\<open>a\<close> has the digit
  value 10, which is not below the base; the numeral \<^verbatim>\<open>2#1\<close> is styled as a valid number all
  the same, and \<^verbatim>\<open>a\<close> begins an identifier (line 406 makes an error of a digit that is too
  large only if it is at most 9).\<close>

theorem letter_digit_ends_numeral:
  "state (sc (turns 3 ''2#1a '')) = SCE_SH_NUMBER
   \<and> numBase (turns 3 ''2#1a '') = 2
   \<and> ch (sc (turns 3 ''2#1a '')) = CHR ''a''
   \<and> fold_digit 2 (translateBashDigit (CHR ''a'')) = 10
   \<and> map (\<lambda>i. styles (sc (lex_all ''2#1a '' [])) ! i) [0, 1, 2, 3]
       = [SCE_SH_NUMBER, SCE_SH_NUMBER, SCE_SH_NUMBER, SCE_SH_IDENTIFIER]"
  by code_simp

text \<open>C4 as amended.  A numeral begins in decimal mode unless it begins with \<^verbatim>\<open>0\<close> and a
  digit, \<^verbatim>\<open>x\<close> or \<^verbatim>\<open>X\<close>, which put it into hex mode (lines 638 to 652); in hex mode the numeral
  goes on over hex digits, ends at any other character, \<^verbatim>\<open>#\<close> among them, and is committed as a
  valid number.  Now let the cursor be in the number style, inside the document.  In decimal
  mode a digit continues the numeral, in decimal mode still.  At \<^verbatim>\<open>#\<close> in decimal mode: a prefix
  that \<^verbatim>\<open>getBashNumberBase\<close> refuses (more than two digits, or two digits of a value above 64)
  is committed in the error style and the numeral ends there; any other prefix becomes the
  base.  With a base from 2 to 64 and \<open>d\<close> the digit value of the character at the cursor (folded
  by 26 for a base of at most 36, so that a capital letter counts as the small one): \<open>d\<close> below
  the base continues the numeral; \<open>d\<close> not below the base and at most 9 makes the numeral an
  error; any other character, a letter, \<^verbatim>\<open>@\<close> or \<^verbatim>\<open>_\<close> with too large a value among them, ends
  the numeral, which is committed as a valid number.  A numeral in error goes on over the
  decimal digits and is committed in the error style.  \<^verbatim>\<open>2#101\<close> and \<^verbatim>\<open>0x1F\<close> are numbers,
  \<^verbatim>\<open>99\<close> in \<^verbatim>\<open>99#0\<close> is an error, and \<^verbatim>\<open>099\<close> in \<^verbatim>\<open>099#0\<close>, read in hex mode, is a number.\<close>

theorem numeral_base_rules:
  assumes "state (sc L) = SCE_SH_NUMBER" and "currentPos (sc L) \<le> int (length doc)"
  shows "(numBase L = BASH_BASE_DECIMAL \<and> ch (sc L) = CHR ''#'' \<longrightarrow>
            (getBashNumberBase (GetCurrent doc (sc L) 10) = BASH_BASE_ERROR \<longrightarrow>
               state (sc (case_NUMBER doc L)) = SCE_SH_DEFAULT
               \<and> run_styled (sc L) (sc (case_NUMBER doc L)) SCE_SH_ERROR)
            \<and> (getBashNumberBase (GetCurrent doc (sc L) 10) \<noteq> BASH_BASE_ERROR \<longrightarrow>
               case_NUMBER doc L = L\<lparr>numBase := getBashNumberBase (GetCurrent doc (sc L) 10)\<rparr>))
         \<and> (2 \<le> numBase L \<and> numBase L \<le> 64 \<longrightarrow>
            (fold_digit (numBase L) (translateBashDigit (ch (sc L))) < numBase L \<longrightarrow>
               case_NUMBER doc L = L)
            \<and> (numBase L \<le> fold_digit (numBase L) (translateBashDigit (ch (sc L)))
                 \<and> fold_digit (numBase L) (translateBashDigit (ch (sc L))) \<le> 9 \<longrightarrow>
               case_NUMBER doc L = L\<lparr>numBase := BASH_BASE_ERROR\<rparr>)
            \<and> (numBase L \<le> fold_digit (numBase L) (translateBashDigit (ch (sc L)))
                 \<and> 9 < fold_digit (numBase L) (translateBashDigit (ch (sc L))) \<longrightarrow>
               state (sc (case_NUMBER doc L)) = SCE_SH_DEFAULT
               \<and> run_styled (sc L) (sc (case_NUMBER doc L)) SCE_SH_NUMBER))
         \<and> (numBase L = BASH_BASE_ERROR \<longrightarrow>
            (translateBashDigit (ch (sc L)) \<le> 9 \<longrightarrow> case_NUMBER doc L = L)
            \<and> (9 < translateBashDigit (ch (sc L)) \<longrightarrow>
               state (sc (case_NUMBER doc L)) = SCE_SH_DEFAULT
               \<and> run_styled (sc L) (sc (case_NUMBER doc L)) SCE_SH_ERROR))
         \<and> (state (sc (enter_number doc M)) = SCE_SH_NUMBER
              \<and> numBase (enter_number doc M)
                  = (if ch (sc M) = CHR ''0''
                        \<and> (chNext (sc M) = CHR ''x'' \<or> chNext (sc M) = CHR ''X''
                             \<or> IsADigit (chNext (sc M)))
                     then BASH_BASE_HEX else BASH_BASE_DECIMAL))
         \<and> (numBase L = BASH_BASE_DECIMAL \<and> ch (sc L) \<noteq> CHR ''#'' \<longrightarrow>
              (IsADigit (ch (sc L)) \<longrightarrow> case_NUMBER doc L = L)
              \<and> (\<not> IsADigit (ch (sc L)) \<longrightarrow>
                   state (sc (case_NUMBER doc L)) = SCE_SH_DEFAULT
                   \<and> run_styled (sc L) (sc (case_NUMBER doc L)) SCE_SH_NUMBER))
         \<and> (numBase L = BASH_BASE_HEX \<longrightarrow>
              (IsHexDigit (ch (sc L)) \<longrightarrow> case_NUMBER doc L = L)
              \<and> (\<not> IsHexDigit (ch (sc L)) \<longrightarrow>
                   state (sc (case_NUMBER doc L)) = SCE_SH_DEFAULT
                   \<and> run_styled (sc L) (sc (case_NUMBER doc L)) SCE_SH_NUMBER))
         \<and> (length (c_str s) > 2 \<longrightarrow> getBashNumberBase s = BASH_BASE_ERROR)
         \<and> (in_range CHR ''0'' CHR ''9'' x \<and> in_range CHR ''0'' CHR ''9'' y \<longrightarrow>
              getBashNumberBase [x] = char_code x - char_code CHR ''0''
              \<and> getBashNumberBase [x, y]
                  = (if 10 * (char_code x - char_code CHR ''0'')
                          + (char_code y - char_code CHR ''0'') > 64
                     then BASH_BASE_ERROR
                     else 10 * (char_code x - char_code CHR ''0'')
                          + (char_code y - char_code CHR ''0'')))
         \<and> getBashNumberBase ''2'' = 2 \<and> getBashNumberBase ''64'' = 64
         \<and> getBashNumberBase ''65'' = BASH_BASE_ERROR \<and> getBashNumberBase ''99'' = BASH_BASE_ERROR
         \<and> (in_range CHR ''A'' CHR ''Z'' c \<and> b \<le> 36 \<longrightarrow>
              fold_digit b (translateBashDigit c) = char_code c - char_code CHR ''A'' + 10)
         \<and> (in_range CHR ''a'' CHR ''z'' c \<longrightarrow>
              fold_digit b (translateBashDigit c) = char_code c - char_code CHR ''a'' + 10)
         \<and> (b > 36 \<longrightarrow> fold_digit b (translateBashDigit c) = translateBashDigit c)
         \<and> map (\<lambda>i. styles (sc (lex_all ''2#101'' [])) ! i) [0, 1, 2, 3, 4]
              = [SCE_SH_NUMBER, SCE_SH_NUMBER, SCE_SH_NUMBER, SCE_SH_NUMBER, SCE_SH_NUMBER]
         \<and> map (\<lambda>i. styles (sc (lex_all ''99#0'' [])) ! i) [0, 1] = [SCE_SH_ERROR, SCE_SH_ERROR]
         \<and> map (\<lambda>i. styles (sc (lex_all ''0x1F'' [])) ! i) [0, 1, 2, 3]
              = [SCE_SH_NUMBER, SCE_SH_NUMBER, SCE_SH_NUMBER, SCE_SH_NUMBER]
         \<and> map (\<lambda>i. styles (sc (lex_all ''099#0 '' [])) ! i) [0, 1, 2]
              = [SCE_SH_NUMBER, SCE_SH_NUMBER, SCE_SH_NUMBER]"
proof -
  note ne = number_end_styles [OF assms(2)]
  have tr: "translateBashDigit x \<noteq> BASH_BASE_ERROR \<or> translateBashDigit x = 65" for x
    by simp
  have fd65: "fold_digit n 65 > 9" for n
    by (simp add: fold_digit_def)
  have A: "numBase L = BASH_BASE_DECIMAL \<and> ch (sc L) = CHR ''#'' \<longrightarrow>
            (getBashNumberBase (GetCurrent doc (sc L) 10) = BASH_BASE_ERROR \<longrightarrow>
               state (sc (case_NUMBER doc L)) = SCE_SH_DEFAULT
               \<and> run_styled (sc L) (sc (case_NUMBER doc L)) SCE_SH_ERROR)
            \<and> (getBashNumberBase (GetCurrent doc (sc L) 10) \<noteq> BASH_BASE_ERROR \<longrightarrow>
               case_NUMBER doc L = L\<lparr>numBase := getBashNumberBase (GetCurrent doc (sc L) 10)\<rparr>)"
    using number_end_styles [of "L\<lparr>numBase := BASH_BASE_ERROR\<rparr>" doc] assms(2)
    by (simp add: case_NUMBER_def Let_def)
  have B: "2 \<le> numBase L \<and> numBase L \<le> 64 \<longrightarrow>
            (fold_digit (numBase L) (translateBashDigit (ch (sc L))) < numBase L \<longrightarrow>
               case_NUMBER doc L = L)
            \<and> (numBase L \<le> fold_digit (numBase L) (translateBashDigit (ch (sc L)))
                 \<and> fold_digit (numBase L) (translateBashDigit (ch (sc L))) \<le> 9 \<longrightarrow>
               case_NUMBER doc L = L\<lparr>numBase := BASH_BASE_ERROR\<rparr>)
            \<and> (numBase L \<le> fold_digit (numBase L) (translateBashDigit (ch (sc L)))
                 \<and> 9 < fold_digit (numBase L) (translateBashDigit (ch (sc L))) \<longrightarrow>
               state (sc (case_NUMBER doc L)) = SCE_SH_DEFAULT
               \<and> run_styled (sc L) (sc (case_NUMBER doc L)) SCE_SH_NUMBER)"
  proof (cases "translateBashDigit (ch (sc L)) = BASH_BASE_ERROR")
    case True
    then show ?thesis
      using ne assms(1) fd65 [of "numBase L"]
      by (auto simp: case_NUMBER_def Let_def fold_digit_def)
  next
    case False
    then show ?thesis
      using ne assms(1) by (auto simp: case_NUMBER_def Let_def)
  qed
  have C: "numBase L = BASH_BASE_ERROR \<longrightarrow>
            (translateBashDigit (ch (sc L)) \<le> 9 \<longrightarrow> case_NUMBER doc L = L)
            \<and> (9 < translateBashDigit (ch (sc L)) \<longrightarrow>
               state (sc (case_NUMBER doc L)) = SCE_SH_DEFAULT
               \<and> run_styled (sc L) (sc (case_NUMBER doc L)) SCE_SH_ERROR)"
    using ne by (auto simp: case_NUMBER_def Let_def)
  have E: "map (\<lambda>i. styles (sc (lex_all ''2#101'' [])) ! i) [0, 1, 2, 3, 4]
              = [SCE_SH_NUMBER, SCE_SH_NUMBER, SCE_SH_NUMBER, SCE_SH_NUMBER, SCE_SH_NUMBER]"
    "map (\<lambda>i. styles (sc (lex_all ''99#0'' [])) ! i) [0, 1] = [SCE_SH_ERROR, SCE_SH_ERROR]"
    "map (\<lambda>i. styles (sc (lex_all ''0x1F'' [])) ! i) [0, 1, 2, 3]
              = [SCE_SH_NUMBER, SCE_SH_NUMBER, SCE_SH_NUMBER, SCE_SH_NUMBER]"
    "map (\<lambda>i. styles (sc (lex_all ''099#0 '' [])) ! i) [0, 1, 2]
              = [SCE_SH_NUMBER, SCE_SH_NUMBER, SCE_SH_NUMBER]"
    by code_simp+
  have M: "state (sc (enter_number doc M)) = SCE_SH_NUMBER
              \<and> numBase (enter_number doc M)
                  = (if ch (sc M) = CHR ''0''
                        \<and> (chNext (sc M) = CHR ''x'' \<or> chNext (sc M) = CHR ''X''
                             \<or> IsADigit (chNext (sc M)))
                     then BASH_BASE_HEX else BASH_BASE_DECIMAL)"
    by (rule enter_number_mode)
  have N: "numBase L = BASH_BASE_DECIMAL \<and> ch (sc L) \<noteq> CHR ''#'' \<longrightarrow>
              (IsADigit (ch (sc L)) \<longrightarrow> case_NUMBER doc L = L)
              \<and> (\<not> IsADigit (ch (sc L)) \<longrightarrow>
                   state (sc (case_NUMBER doc L)) = SCE_SH_DEFAULT
                   \<and> run_styled (sc L) (sc (case_NUMBER doc L)) SCE_SH_NUMBER)"
    using ne assms(1) by (auto simp: case_NUMBER_def Let_def)
  have H: "numBase L = BASH_BASE_HEX \<longrightarrow>
              (IsHexDigit (ch (sc L)) \<longrightarrow> case_NUMBER doc L = L)
              \<and> (\<not> IsHexDigit (ch (sc L)) \<longrightarrow>
                   state (sc (case_NUMBER doc L)) = SCE_SH_DEFAULT
                   \<and> run_styled (sc L) (sc (case_NUMBER doc L)) SCE_SH_NUMBER)"
    using ne assms(1) by (auto simp: case_NUMBER_def Let_def)
  have T: "in_range CHR ''0'' CHR ''9'' x \<and> in_range CHR ''0'' CHR ''9'' y \<longrightarrow>
              getBashNumberBase [x] = char_code x - char_code CHR ''0''
              \<and> getBashNumberBase [x, y]
                  = (if 10 * (char_code x - char_code CHR ''0'')
                          + (char_code y - char_code CHR ''0'') > 64
                     then BASH_BASE_ERROR
                     else 10 * (char_code x - char_code CHR ''0'')
                          + (char_code y - char_code CHR ''0''))"
    using getBashNumberBase_digits [of x y] by simp
  have D: "length (c_str s) > 2 \<longrightarrow> getBashNumberBase s = BASH_BASE_ERROR"
    using getBashNumberBase_long [of s] by simp
  have F: "in_range CHR ''A'' CHR ''Z'' c \<and> b \<le> 36 \<longrightarrow>
              fold_digit b (translateBashDigit c) = char_code c - char_code CHR ''A'' + 10"
    "in_range CHR ''a'' CHR ''z'' c \<longrightarrow>
              fold_digit b (translateBashDigit c) = char_code c - char_code CHR ''a'' + 10"
    "b > 36 \<longrightarrow> fold_digit b (translateBashDigit c) = translateBashDigit c"
    using fold_digit_letters(1) [of c b] fold_digit_letters(2) [of c b]
      fold_digit_letters(3) [of b "translateBashDigit c"]
    by simp_all
  note G = getBashNumberBase_examples
  show ?thesis
    by (intro conjI) (rule A B C M [THEN conjunct1] M [THEN conjunct2] N H D
        T F E G(1) G(3) G(4) G(5))+
qed

theorem numeral_base_rules_witness:
  "state (sc (turns 2 ''99#0'')) = SCE_SH_NUMBER
   \<and> numBase (turns 2 ''99#0'') = BASH_BASE_DECIMAL \<and> ch (sc (turns 2 ''99#0'')) = CHR ''#''
   \<and> getBashNumberBase (GetCurrent ''99#0'' (sc (turns 2 ''99#0'')) 10) = BASH_BASE_ERROR
   \<and> run_styled (sc (turns 2 ''99#0'')) (sc (case_NUMBER ''99#0'' (turns 2 ''99#0''))) SCE_SH_ERROR
   \<and> numBase (turns 3 ''2#1a '') = 2
   \<and> 9 < fold_digit 2 (translateBashDigit (ch (sc (turns 3 ''2#1a ''))))
   \<and> run_styled (sc (turns 3 ''2#1a '')) (sc (case_NUMBER ''2#1a '' (turns 3 ''2#1a '')))
        SCE_SH_NUMBER
   \<and> numBase (turns 4 ''2#102 '') = 2
   \<and> fold_digit 2 (translateBashDigit (ch (sc (turns 4 ''2#102 '')))) = 2
   \<and> case_NUMBER ''2#102 '' (turns 4 ''2#102 '') = (turns 4 ''2#102 '')\<lparr>numBase := BASH_BASE_ERROR\<rparr>
   \<and> numBase (turns 5 ''2#102 '') = BASH_BASE_ERROR
   \<and> 9 < translateBashDigit (ch (sc (turns 5 ''2#102 '')))
   \<and> run_styled (sc (turns 5 ''2#102 '')) (sc (case_NUMBER ''2#102 '' (turns 5 ''2#102 '')))
        SCE_SH_ERROR
   \<and> getBashNumberBase ''100'' = BASH_BASE_ERROR
   \<and> fold_digit 16 (translateBashDigit (CHR ''F'')) = 15
   \<and> ch (sc (turns 0 ''099#0 '')) = CHR ''0'' \<and> IsADigit (chNext (sc (turns 0 ''099#0 '')))
   \<and> numBase (enter_number ''099#0 '' (turns 0 ''099#0 '')) = BASH_BASE_HEX
   \<and> state (sc (turns 3 ''099#0 '')) = SCE_SH_NUMBER
   \<and> numBase (turns 3 ''099#0 '') = BASH_BASE_HEX
   \<and> \<not> IsHexDigit (ch (sc (turns 3 ''099#0 '')))
   \<and> run_styled (sc (turns 3 ''099#0 '')) (sc (case_NUMBER ''099#0 '' (turns 3 ''099#0 '')))
        SCE_SH_NUMBER
   \<and> getBashNumberBase ''70'' = BASH_BASE_ERROR"
proof -
  have a: "state (sc (turns 2 ''99#0'')) = SCE_SH_NUMBER"
    "currentPos (sc (turns 2 ''99#0'')) \<le> int (length ''99#0'')"
    by code_simp+
  have a': "numBase (turns 2 ''99#0'') = BASH_BASE_DECIMAL \<and> ch (sc (turns 2 ''99#0'')) = CHR ''#''"
    "getBashNumberBase (GetCurrent ''99#0'' (sc (turns 2 ''99#0'')) 10) = BASH_BASE_ERROR"
    by code_simp+
  have b: "state (sc (turns 3 ''2#1a '')) = SCE_SH_NUMBER"
    "currentPos (sc (turns 3 ''2#1a '')) \<le> int (length ''2#1a '')"
    by code_simp+
  have b': "numBase (turns 3 ''2#1a '') = 2"
    "9 < fold_digit 2 (translateBashDigit (ch (sc (turns 3 ''2#1a ''))))"
    by code_simp+
  have c: "state (sc (turns 4 ''2#102 '')) = SCE_SH_NUMBER"
    "currentPos (sc (turns 4 ''2#102 '')) \<le> int (length ''2#102 '')"
    by code_simp+
  have c': "numBase (turns 4 ''2#102 '') = 2"
    "fold_digit 2 (translateBashDigit (ch (sc (turns 4 ''2#102 '')))) = 2"
    by code_simp+
  have d: "state (sc (turns 5 ''2#102 '')) = SCE_SH_NUMBER"
    "currentPos (sc (turns 5 ''2#102 '')) \<le> int (length ''2#102 '')"
    by code_simp+
  have d': "numBase (turns 5 ''2#102 '') = BASH_BASE_ERROR"
    "9 < translateBashDigit (ch (sc (turns 5 ''2#102 '')))"
    by code_simp+
  have e: "length (c_str ''100'') > 2" "in_range CHR ''A'' CHR ''Z'' CHR ''F''"
    by code_simp+
  have e': "char_code CHR ''F'' - char_code CHR ''A'' + 10 = 15"
    by code_simp
  have f: "state (sc (turns 3 ''099#0 '')) = SCE_SH_NUMBER"
    "currentPos (sc (turns 3 ''099#0 '')) \<le> int (length ''099#0 '')"
    by code_simp+
  have f': "numBase (turns 3 ''099#0 '') = BASH_BASE_HEX"
    "\<not> IsHexDigit (ch (sc (turns 3 ''099#0 '')))"
    by code_simp+
  have g: "ch (sc (turns 0 ''099#0 '')) = CHR ''0''" "IsADigit (chNext (sc (turns 0 ''099#0 '')))"
    by code_simp+
  have h: "in_range CHR ''0'' CHR ''9'' CHR ''7'' \<and> in_range CHR ''0'' CHR ''9'' CHR ''0''"
    "10 * (char_code CHR ''7'' - char_code CHR ''0'')
       + (char_code CHR ''0'' - char_code CHR ''0'') > 64"
    by code_simp+
  note T5 = numeral_base_rules
    [OF f, where M = "turns 0 ''099#0 ''" and x = "CHR ''7''" and y = "CHR ''0''"]
  have 7: "run_styled (sc (turns 3 ''099#0 '')) (sc (case_NUMBER ''099#0 '' (turns 3 ''099#0 '')))
             SCE_SH_NUMBER"
    using f' T5 by blast
  have 8: "numBase (enter_number ''099#0 '' (turns 0 ''099#0 '')) = BASH_BASE_HEX"
    using g T5 by simp
  have "getBashNumberBase [CHR ''7'', CHR ''0'']
          = (if 10 * (char_code CHR ''7'' - char_code CHR ''0'')
                  + (char_code CHR ''0'' - char_code CHR ''0'') > 64
             then BASH_BASE_ERROR
             else 10 * (char_code CHR ''7'' - char_code CHR ''0'')
                  + (char_code CHR ''0'' - char_code CHR ''0''))"
    using h(1) T5 by blast
  then have 9: "getBashNumberBase ''70'' = BASH_BASE_ERROR"
    using h(2) by simp
  note T1 = numeral_base_rules [OF a, where s = "''100''" and c = "CHR ''F''" and b = 16]
  have 1: "run_styled (sc (turns 2 ''99#0'')) (sc (case_NUMBER ''99#0'' (turns 2 ''99#0'')))
             SCE_SH_ERROR"
    using a' T1 by blast
  have 2: "getBashNumberBase ''100'' = BASH_BASE_ERROR"
    using e(1) T1 by blast
  have 3: "fold_digit 16 (translateBashDigit (CHR ''F'')) = 15"
    using e(2) e' T1 by simp
  note T2 = numeral_base_rules [OF b]
  have 4: "run_styled (sc (turns 3 ''2#1a '')) (sc (case_NUMBER ''2#1a '' (turns 3 ''2#1a '')))
             SCE_SH_NUMBER"
    using b' T2 by simp
  note T3 = numeral_base_rules [OF c]
  have 5: "case_NUMBER ''2#102 '' (turns 4 ''2#102 '')
             = (turns 4 ''2#102 '')\<lparr>numBase := BASH_BASE_ERROR\<rparr>"
    using c' T3 by simp
  note T4 = numeral_base_rules [OF d]
  have 6: "run_styled (sc (turns 5 ''2#102 '')) (sc (case_NUMBER ''2#102 '' (turns 5 ''2#102 '')))
             SCE_SH_ERROR"
    using d' T4 by simp
  show ?thesis
    by (intro conjI) (rule a a'(1) [THEN conjunct1] a'(1) [THEN conjunct2] a'(2) b' c' d' f f' g
        1 2 3 4 5 6 7 8 9)+
qed

section \<open>The header flag (C8)\<close>

text \<open>C8 fails on the code.  Line 887 sets the header flag under the very condition of the
  claim, but the level it is or-ed into is not kept within \<^verbatim>\<open>SC_FOLDLEVELNUMBERMASK\<close>: each
  closing brace styled as operator lowers \<^verbatim>\<open>levelCurrent\<close> by one (line 862) without a bound.
  After a line of 1025 closing braces in a document at the base level 1024, the level is -1,
  and the empty line that follows is given the level -1 or-ed with the white flag (lines 884 to
  889), that is -1: every bit is set, the header flag among them, on a blank line whose level
  equals the level of the next line.\<close>

theorem blank_line_with_header_bit:
  "levels (FoldBashDoc plain_env (closers 1025) (closers_styles 1025) base_levels 0 1027) 1 = - 1
   \<and> levels (FoldBashDoc plain_env (closers 1025) (closers_styles 1025) base_levels 0 1027) 1
       AND SC_FOLDLEVELHEADERFLAG = SC_FOLDLEVELHEADERFLAG
   \<and> SafeGetCharAt (closers 1025) 1025 = LF
   \<and> SafeGetCharAt (closers 1025) 1026 = LF
   \<and> length (closers 1025) = 1027
   \<and> SC_FOLDLEVELHEADERFLAG \<noteq> 0"
proof -
  have f: "\<not> foldComment plain_env" "foldCompact plain_env"
    by (simp_all add: plain_env_def)
  have l: "levels (FoldBashDoc plain_env (closers 1025) (closers_styles 1025) base_levels 0 1027) 1
           = - 1"
    using closers_levels [OF f(1), of 1025] f(2) by (simp add: line_level_def)
  have c: "SafeGetCharAt (closers 1025) 1025 = LF" "SafeGetCharAt (closers 1025) 1026 = LF"
    using closers_chars(3,4) [of 1025] by simp_all
  show ?thesis
    using l c by (simp add: closers_def)
qed

text \<open>While the level of a line has no bit in common with the header flag (every level from 0
  to \<^verbatim>\<open>SC_FOLDLEVELNUMBERMASK\<close> is such), the pass does what C8 says.  The part of a line that
  lies in the range of the pass starts at \<open>a\<close> (the start of the range, or the position after a
  line end) and ends with the line end at \<open>e\<close>; \<open>s\<close> and \<open>s'\<close> are the states of the loop before
  and after it, so that \<open>levelPrev s\<close> is the level of the line and \<open>levelPrev s'\<close> the level of
  the next one.  The level left for the line has the header flag exactly when the level of the
  line is less than the level of the next line and the line has a byte that is not white space
  at or after \<open>a\<close>; a blank line has no header flag; and with a level from 0 to
  \<^verbatim>\<open>SC_FOLDLEVELNUMBERMASK\<close> the number part of what is left for the line is its level.\<close>

lemma fold_header_flag_in_range:
  assumes "startPos \<le> a" and "a \<le> e" and "e < startPos + len"
    and "a = startPos \<or> atEOL doc (a - 1)"
    and "\<forall>k. a \<le> k \<and> k < e \<longrightarrow> \<not> atEOL doc k"
    and "atEOL doc e"
    and "s = fold_loop env doc sty startPos a (fold_init doc sty lv startPos)"
    and "s' = fold_loop env doc sty startPos (e + 1) (fold_init doc sty lv startPos)"
    and "levelPrev s AND SC_FOLDLEVELHEADERFLAG = 0"
  shows "lineCurrent s' = lineCurrent s + 1
       \<and> ((levels (FoldBashDoc env doc sty lv startPos len) (lineCurrent s)
              AND SC_FOLDLEVELHEADERFLAG \<noteq> 0)
            \<longleftrightarrow> (levelPrev s < levelPrev s' \<and> visible_in doc a e))
       \<and> (\<not> visible_in doc a e \<longrightarrow>
            levels (FoldBashDoc env doc sty lv startPos len) (lineCurrent s)
              AND SC_FOLDLEVELHEADERFLAG = 0)
       \<and> (0 \<le> levelPrev s \<and> levelPrev s \<le> SC_FOLDLEVELNUMBERMASK \<longrightarrow>
            levels (FoldBashDoc env doc sty lv startPos len) (lineCurrent s)
              AND SC_FOLDLEVELNUMBERMASK = levelPrev s)"
proof -
  note em = fold_line_emitted [OF assms(1-8)]
  obtain v where v: "levels (FoldBashDoc env doc sty lv startPos len) (lineCurrent s)
             = line_level (foldCompact env) (levelPrev s) (levelPrev s') v"
      "0 \<le> v" "v > 0 \<longleftrightarrow> visible_in doc a e"
    using em(2) by blast
  have h: "(levels (FoldBashDoc env doc sty lv startPos len) (lineCurrent s)
              AND SC_FOLDLEVELHEADERFLAG \<noteq> 0)
            \<longleftrightarrow> (levelPrev s < levelPrev s' \<and> visible_in doc a e)"
    unfolding v(1) using line_level_header [OF assms(9)] v(3) by simp
  have n: "0 \<le> levelPrev s \<and> levelPrev s \<le> SC_FOLDLEVELNUMBERMASK \<longrightarrow>
            levels (FoldBashDoc env doc sty lv startPos len) (lineCurrent s)
              AND SC_FOLDLEVELNUMBERMASK = levelPrev s"
    unfolding v(1) using line_level_number by simp
  show ?thesis
    using em(1) h n by blast
qed

lemma fold_header_flag_in_range_example:
  "\<not> atEOL braces_example 0 \<and> atEOL braces_example 1 \<and> atEOL braces_example 2
   \<and> levelPrev (braces_fold_at 0) AND SC_FOLDLEVELHEADERFLAG = 0
   \<and> levelPrev (braces_fold_at 2) AND SC_FOLDLEVELHEADERFLAG = 0
   \<and> visible_in braces_example 0 1
   \<and> levelPrev (braces_fold_at 0) < levelPrev (braces_fold_at 2)
   \<and> levels (FoldBashDoc plain_env braces_example braces_styles base_levels 0 5) 0
        AND SC_FOLDLEVELHEADERFLAG \<noteq> 0
   \<and> levels (FoldBashDoc plain_env braces_example braces_styles base_levels 0 5) 0
        AND SC_FOLDLEVELNUMBERMASK = SC_FOLDLEVELBASE
   \<and> \<not> visible_in braces_example 2 2
   \<and> levels (FoldBashDoc plain_env braces_example braces_styles base_levels 0 5) 1
        AND SC_FOLDLEVELHEADERFLAG = 0"
proof -
  have e: "\<not> atEOL braces_example 0" "atEOL braces_example 1" "atEOL braces_example 2"
    by code_simp+
  have p: "levelPrev (braces_fold_at 0) AND SC_FOLDLEVELHEADERFLAG = 0"
    "levelPrev (braces_fold_at 2) AND SC_FOLDLEVELHEADERFLAG = 0"
    by code_simp+
  have q: "levelPrev (braces_fold_at 0) = SC_FOLDLEVELBASE"
    "levelPrev (braces_fold_at 0) < levelPrev (braces_fold_at 2)"
    "lineCurrent (braces_fold_at 0) = 0" "lineCurrent (braces_fold_at 2) = 1"
    by code_simp+
  have in0: "\<forall>k. (0::int) \<le> k \<and> k < 1 \<longrightarrow> \<not> atEOL braces_example k"
  proof (intro allI impI)
    fix k :: int
    assume "0 \<le> k \<and> k < 1"
    then have "k = 0" by simp
    then show "\<not> atEOL braces_example k" using e(1) by simp
  qed
  have v0: "visible_in braces_example 0 1"
    unfolding visible_in_def by (rule exI [of _ 0]) code_simp
  have v2: "\<not> visible_in braces_example 2 2"
  proof
    assume "visible_in braces_example 2 2"
    then obtain k where k: "2 \<le> k" "k \<le> 2" "\<not> IsASpace (SafeGetCharAt braces_example k)"
      by (auto simp: visible_in_def)
    have "k = 2" using k(1,2) by arith
    then have "\<not> IsASpace (SafeGetCharAt braces_example 2)"
      using k(3) by simp
    then show False by code_simp
  qed
  have s0: "braces_fold_at 0 = fold_loop plain_env braces_example braces_styles 0 0
                (fold_init braces_example braces_styles base_levels 0)"
    by (simp only: braces_fold_at_def)
  have s2: "braces_fold_at 2 = fold_loop plain_env braces_example braces_styles 0 (1 + 1)
                (fold_init braces_example braces_styles base_levels 0)"
    by (simp only: braces_fold_at_def one_add_one)
  have s2': "braces_fold_at 2 = fold_loop plain_env braces_example braces_styles 0 2
                (fold_init braces_example braces_styles base_levels 0)"
    by (simp only: braces_fold_at_def)
  have s3: "braces_fold_at 3 = fold_loop plain_env braces_example braces_styles 0 (2 + 1)
                (fold_init braces_example braces_styles base_levels 0)"
    by (simp add: braces_fold_at_def)
  have n0: "(0::int) \<le> 0" "(0::int) \<le> 1" "(1::int) < 0 + 5"
    "(0::int) = 0 \<or> atEOL braces_example (0 - 1)"
    by simp_all
  have n2: "(0::int) \<le> 2" "(2::int) \<le> 2" "(2::int) < 0 + 5"
    "(2::int) = 0 \<or> atEOL braces_example (2 - 1)"
    using e(2) by simp_all
  have in2: "\<forall>k. (2::int) \<le> k \<and> k < 2 \<longrightarrow> \<not> atEOL braces_example k"
    by auto
  have r: "0 \<le> levelPrev (braces_fold_at 0)
           \<and> levelPrev (braces_fold_at 0) \<le> SC_FOLDLEVELNUMBERMASK"
    by (simp add: q(1))
  have 1: "levels (FoldBashDoc plain_env braces_example braces_styles base_levels 0 5)
             (lineCurrent (braces_fold_at 0)) AND SC_FOLDLEVELHEADERFLAG \<noteq> 0"
    "levels (FoldBashDoc plain_env braces_example braces_styles base_levels 0 5)
             (lineCurrent (braces_fold_at 0)) AND SC_FOLDLEVELNUMBERMASK
               = levelPrev (braces_fold_at 0)"
    using fold_header_flag_in_range [OF n0 in0 e(2) s0 s2 p(1)] q(2) v0 r by blast+
  have 2: "levels (FoldBashDoc plain_env braces_example braces_styles base_levels 0 5)
             (lineCurrent (braces_fold_at 2)) AND SC_FOLDLEVELHEADERFLAG = 0"
    using fold_header_flag_in_range [OF n2 in2 e(3) s2' s3 p(2)] v2 by blast
  have 3: "levels (FoldBashDoc plain_env braces_example braces_styles base_levels 0 5) 0
        AND SC_FOLDLEVELHEADERFLAG \<noteq> 0"
    "levels (FoldBashDoc plain_env braces_example braces_styles base_levels 0 5) 0
        AND SC_FOLDLEVELNUMBERMASK = SC_FOLDLEVELBASE"
    "levels (FoldBashDoc plain_env braces_example braces_styles base_levels 0 5) 1
        AND SC_FOLDLEVELHEADERFLAG = 0"
    using 1 2 unfolding q(1,3,4) by simp_all
  show ?thesis
    by (intro conjI) (rule e p v0 q(2) 3 v2)+
qed

section \<open>Line states inside multi-line constructs (C9)\<close>



section \<open>The line that ends a here-document (C6)\<close>




section \<open>Lexing from the restart point (C1)\<close>

text \<open>C1.  The document is a dollar sign, a line end, the word \<open>ab\<close> and a line end.  The
  dollar sign takes the line end into its scalar (lines 694, 695 and 712), so the first pass
  reaches line 1 in style \<^verbatim>\<open>SCE_SH_SCALAR\<close>, which is not one of the styles of line 263: it
  stores \<^verbatim>\<open>BASH_CMD_START\<close> for line 1 and styles \<open>ab\<close> as scalar.  A pass asked to style
  from offset 3 goes back to the start of line 1 (offset 2), begins there in the default
  style, and styles \<open>ab\<close> as identifier: the style byte at offset 3 differs.\<close>

theorem restart_lexing_differs:
  "lineState (sc (lex_all [CHR ''$'', LF, CHR ''a'', CHR ''b'', LF] [])) 1 = BASH_CMD_START
   \<and> restart_pos [CHR ''$'', LF, CHR ''a'', CHR ''b'', LF]
        (lineState (sc (lex_all [CHR ''$'', LF, CHR ''a'', CHR ''b'', LF] []))) 3 = 2
   \<and> styles (sc (lex_all [CHR ''$'', LF, CHR ''a'', CHR ''b'', LF] [])) ! 3 = SCE_SH_SCALAR
   \<and> styles (sc (relex_from [CHR ''$'', LF, CHR ''a'', CHR ''b'', LF] [] 3)) ! 3
       = SCE_SH_IDENTIFIER"
  by code_simp

end
